theory Spec2Isabelle
  imports Complex_Main "HOL-Library.Char_ord" "HOL-Library.List_Lexorder"
begin

section \<open>Strings\<close>

text \<open>
  A Python \<open>str\<close> is modelled as a \<open>string\<close>; one \<open>char\<close> stands for one character
  with a code point below 256, so \<open>length\<close> is Python's \<open>len\<close> and the multiplication
  sign of the deck lines is the single character \<open>CHR 0xD7\<close>.
\<close>

definition ord_c :: "char \<Rightarrow> nat" where
  "ord_c c = of_char c"

text \<open>
  \<open>str.lower()\<close> on one character: A-Z, and the upper-case letters 0xC0-0xDE (0xD7, the
  multiplication sign, is not a letter). The lower-case letter is 32 higher; bit 5 is
  clear in all these code points, so adding 32 sets it.
\<close>

definition is_upper :: "char \<Rightarrow> bool" where
  "is_upper c =
     ((65 \<le> ord_c c \<and> ord_c c \<le> 90) \<or> (192 \<le> ord_c c \<and> ord_c c \<le> 222 \<and> ord_c c \<noteq> 215))"

definition lower_char :: "char \<Rightarrow> char" where
  "lower_char c =
     (if is_upper c
      then (case c of Char b0 b1 b2 b3 b4 b5 b6 b7 \<Rightarrow> Char b0 b1 b2 b3 b4 True b6 b7)
      else c)"

definition lower :: "string \<Rightarrow> string" where
  "lower s = map lower_char s"

text \<open>The characters \<open>str.strip()\<close> removes: 0x09-0x0D, 0x1C-0x20, 0x85 and 0xA0.\<close>

definition isspace :: "char \<Rightarrow> bool" where
  "isspace c =
     ((9 \<le> ord_c c \<and> ord_c c \<le> 13) \<or> (28 \<le> ord_c c \<and> ord_c c \<le> 32)
      \<or> ord_c c = 133 \<or> ord_c c = 160)"

definition strip :: "string \<Rightarrow> string" where
  "strip s = rev (dropWhile isspace (rev (dropWhile isspace s)))"

text \<open>\<open>a in b\<close> on strings.\<close>

fun starts_with :: "string \<Rightarrow> string \<Rightarrow> bool" where
  "starts_with [] s = True"
| "starts_with (x # xs) [] = False"
| "starts_with (x # xs) (y # ys) = (x = y \<and> starts_with xs ys)"

fun str_in :: "string \<Rightarrow> string \<Rightarrow> bool" where
  "str_in sub [] = (sub = [])"
| "str_in sub (y # ys) = (starts_with sub (y # ys) \<or> str_in sub ys)"

text \<open>\<open>sep.join(parts)\<close>.\<close>

fun join :: "string \<Rightarrow> string list \<Rightarrow> string" where
  "join sep [] = []"
| "join sep [p] = p"
| "join sep (p # q # ps) = p @ sep @ join sep (q # ps)"

text \<open>\<open>str(n)\<close> for an integer, as the f-strings render quantities, levels and chunk numbers.\<close>

definition digit_char :: "nat \<Rightarrow> char" where
  "digit_char d = ''0123456789'' ! d"

function str_nat :: "nat \<Rightarrow> string" where
  "str_nat n = (if n < 10 then [digit_char n] else str_nat (n div 10) @ [digit_char (n mod 10)])"
  by pat_completeness auto
termination
  by (relation "measure id") auto

declare str_nat.simps [simp del]

definition str_int :: "int \<Rightarrow> string" where
  "str_int i = (if i < 0 then CHR ''-'' # str_nat (nat (- i)) else str_nat (nat i))"

section \<open>Card records\<close>

text \<open>
  A card is a JSON object; a field is \<open>None\<close> when the key is absent. Only the keys that
  matching and deck rendering read are kept.
\<close>

record card =
  code :: "string option"
  name :: "string option"
  xp :: "int option"
  type_code :: "string option"
  permanent :: "bool option"
  slot :: "string option"
  url :: "string option"

text \<open>\<open>c.get('name') or ''\<close>, and \<open>c.get('xp') or 0\<close>.\<close>

definition name_or :: "card \<Rightarrow> string" where
  "name_or c = (case name c of None \<Rightarrow> [] | Some n \<Rightarrow> n)"

definition xp_or :: "card \<Rightarrow> int" where
  "xp_or c = (case xp c of None \<Rightarrow> 0 | Some v \<Rightarrow> v)"

section \<open>Query parsing\<close>

text \<open>
  \<open>re.search(r"\((.+?)\)$", s)\<close>. After an opening parenthesis the lazy group takes one
  character that is not a newline, then grows one such character at a time until a
  closing parenthesis stands at the end of the string (\<open>$\<close> also matches before a final
  newline). The search tries every start position from the left and returns the start of
  the match with group 1.
\<close>

definition newline :: char where
  "newline = CHR 0x0A"

fun lazy_group :: "string \<Rightarrow> string \<Rightarrow> string option" where
  "lazy_group g [] = None"
| "lazy_group g (c # cs) =
     (if c = CHR '')'' \<and> (cs = [] \<or> cs = [newline]) then Some g
      else if c = newline then None
      else lazy_group (g @ [c]) cs)"

fun match_at :: "string \<Rightarrow> string option" where
  "match_at (c # d # ds) = (if c = CHR ''('' \<and> d \<noteq> newline then lazy_group [d] ds else None)"
| "match_at s = None"

fun re_search :: "nat \<Rightarrow> string \<Rightarrow> (nat \<times> string) option" where
  "re_search i [] = None"
| "re_search i (c # cs) =
     (case match_at (c # cs) of Some g \<Rightarrow> Some (i, g) | None \<Rightarrow> re_search (Suc i) cs)"

text \<open>
  \<open>int(level)\<close>: an optional sign, then decimal digits, where single underscores may
  separate digits. \<open>None\<close> is the \<open>ValueError\<close>. (The interpreter's limit on the number of
  digits is not modelled.)
\<close>

definition is_digit :: "char \<Rightarrow> bool" where
  "is_digit c = (48 \<le> ord_c c \<and> ord_c c \<le> 57)"

fun py_digits :: "int \<Rightarrow> bool \<Rightarrow> string \<Rightarrow> int option" where
  "py_digits acc prev [] = (if prev then Some acc else None)"
| "py_digits acc prev (c # cs) =
     (if is_digit c then py_digits (10 * acc + int (ord_c c - 48)) True cs
      else if c = CHR ''_'' \<and> prev \<and> cs \<noteq> [] then py_digits acc False cs
      else None)"

definition py_int :: "string \<Rightarrow> int option" where
  "py_int s =
     (case strip s of
        [] \<Rightarrow> None
      | c # cs \<Rightarrow>
          if c = CHR ''-'' then map_option uminus (py_digits 0 False cs)
          else if c = CHR ''+'' then py_digits 0 False cs
          else py_digits 0 False (c # cs))"

text \<open>The closure \<open>level_filter\<close>, with its two captured variables as arguments.\<close>

definition level_filter :: "string \<Rightarrow> string \<Rightarrow> card \<Rightarrow> bool" where
  "level_filter level search_term c =
     (if lower level = ''u'' then str_in search_term (lower (name_or c)) \<and> xp_or c > 0
      else case py_int level of
             Some n \<Rightarrow> str_in search_term (lower (name_or c)) \<and> xp_or c = n
           | None \<Rightarrow> str_in search_term (lower (name_or c)))"

definition parse_level_search :: "string \<Rightarrow> string \<times> (card \<Rightarrow> bool) option" where
  "parse_level_search term =
     (case re_search 0 (strip term) of
        None \<Rightarrow> (lower (strip term), None)
      | Some (i, g) \<Rightarrow>
          (let level = strip g;
               search_term = lower (strip (take i term))
           in (search_term, Some (level_filter level search_term))))"

section \<open>The catalog and its name index\<close>

text \<open>\<open>_norm\<close>: lower-case, then delete every character outside a-z and 0-9.\<close>

definition is_alnum_lower :: "char \<Rightarrow> bool" where
  "is_alnum_lower c = ((97 \<le> ord_c c \<and> ord_c c \<le> 122) \<or> (48 \<le> ord_c c \<and> ord_c c \<le> 57))"

definition norm_str :: "string \<Rightarrow> string" where
  "norm_str s = filter is_alnum_lower (lower s)"

text \<open>
  A \<open>dict\<close> keeps its keys in insertion order, and both \<open>list(d.keys())\<close> and
  \<open>d.values()\<close> are read in that order: it is an association list with one pair per key,
  read with \<open>map_of\<close>; storing under a key that is present keeps the key's position.
\<close>

fun dict_set :: "('k \<times> 'v) list \<Rightarrow> 'k \<Rightarrow> 'v \<Rightarrow> ('k \<times> 'v) list" where
  "dict_set [] k v = [(k, v)]"
| "dict_set ((k', v') # d) k v = (if k' = k then (k, v) # d else (k', v') # dict_set d k v)"

text \<open>The three module globals.\<close>

record store =
  CARDS :: "card list"
  NAME_INDEX :: "(string \<times> card list) list"
  NAME_KEYS :: "string list"

text \<open>One round of the loop of \<open>_build_name_index\<close>: \<open>idx.setdefault(n, []).append(c)\<close>.\<close>

definition index_add :: "(string \<times> card list) list \<Rightarrow> card \<Rightarrow> (string \<times> card list) list" where
  "index_add idx c =
     (let n = norm_str (name_or c)
      in if n = [] then idx
         else dict_set idx n ((case map_of idx n of None \<Rightarrow> [] | Some l \<Rightarrow> l) @ [c]))"

definition build_name_index :: "card list \<Rightarrow> (string \<times> card list) list" where
  "build_name_index cards = foldl index_add [] cards"

definition refresh_name_index :: "store \<Rightarrow> store" where
  "refresh_name_index st =
     (let idx = build_name_index (CARDS st)
      in st\<lparr>NAME_INDEX := idx, NAME_KEYS := map fst idx\<rparr>)"

text \<open>
  \<open>load_cards\<close>. The download is an outside collaborator: its outcome is an argument,
  \<open>Inl\<close> when \<open>fetch_json\<close> raises. The exception leaves \<open>load_cards\<close> before the
  assignment to \<open>CARDS\<close>, and the caller gets it back.
\<close>

datatype error = FetchError

definition load_cards :: "error + card list \<Rightarrow> store \<Rightarrow> (error + unit) \<times> store" where
  "load_cards fetched st =
     (case fetched of
        Inl e \<Rightarrow> (Inl e, st)
      | Inr records \<Rightarrow> (Inr (), refresh_name_index (st\<lparr>CARDS := records\<rparr>)))"

section \<open>Match resolution\<close>

text \<open>\<open>min(xs, key=f)\<close> on a list with first element \<open>best\<close>: the first minimal element.\<close>

fun py_min :: "('a \<Rightarrow> int) \<Rightarrow> 'a \<Rightarrow> 'a list \<Rightarrow> 'a" where
  "py_min key best [] = best"
| "py_min key best (c # cs) = (if key c < key best then py_min key c cs else py_min key best cs)"

text \<open>\<open>not level_fn or level_fn(c)\<close>.\<close>

definition passes :: "(card \<Rightarrow> bool) option \<Rightarrow> card \<Rightarrow> bool" where
  "passes level_fn c = (case level_fn of None \<Rightarrow> True | Some f \<Rightarrow> f c)"

text \<open>
  The accumulator of the resolver is the pair of \<open>matches\<close> and \<open>seen_codes\<close>. Each stage
  ends with the same loop over its picks: a pick is appended when its code is neither
  missing nor empty and has not been seen.
\<close>

type_synonym acc = "card list \<times> string set"

definition add_match :: "acc \<Rightarrow> card \<Rightarrow> acc" where
  "add_match a c =
     (case code c of
        None \<Rightarrow> a
      | Some k \<Rightarrow> if k \<noteq> [] \<and> k \<notin> snd a then (fst a @ [c], insert k (snd a)) else a)"

definition add_matches :: "acc \<Rightarrow> card list \<Rightarrow> acc" where
  "add_matches a picks = foldl add_match a picks"

text \<open>The candidates of the exact stage.\<close>

definition exacts :: "card list \<Rightarrow> string \<Rightarrow> (card \<Rightarrow> bool) option \<Rightarrow> card list" where
  "exacts cards base_norm level_fn =
     filter (\<lambda>c. norm_str (name_or c) = base_norm \<and> passes level_fn c) cards"

text \<open>The substring stage: the dict \<open>by_name_lowest\<close> after the loop over the catalog.\<close>

definition lowest_step ::
  "string \<Rightarrow> (card \<Rightarrow> bool) option \<Rightarrow> (string \<times> card) list \<Rightarrow> card \<Rightarrow> (string \<times> card) list" where
  "lowest_step base level_fn d c =
     (if str_in base (lower (name_or c)) \<and> passes level_fn c
      then (let key = norm_str (name_or c)
            in case map_of d key of
                 None \<Rightarrow> dict_set d key c
               | Some cur \<Rightarrow> if xp_or c < xp_or cur then dict_set d key c else d)
      else d)"

definition by_name_lowest ::
  "card list \<Rightarrow> string \<Rightarrow> (card \<Rightarrow> bool) option \<Rightarrow> (string \<times> card) list" where
  "by_name_lowest cards base level_fn = foldl (lowest_step base level_fn) [] cards"

text \<open>
  \<open>process.extractOne(query, choices, scorer=...)\<close> belongs to the fuzzy-matching
  library. It scores every choice and returns the first choice of highest score with
  that score, or nothing for no choices. The scorer itself (\<open>fuzz.token_set_ratio\<close>, a
  number between 0 and 100) is an argument of the resolver.
\<close>

type_synonym scorer = "string \<Rightarrow> string \<Rightarrow> real"

fun extract_best :: "(string \<Rightarrow> real) \<Rightarrow> string \<times> real \<Rightarrow> string list \<Rightarrow> string \<times> real" where
  "extract_best sc best [] = best"
| "extract_best sc best (c # cs) =
     (if sc c > snd best then extract_best sc (c, sc c) cs else extract_best sc best cs)"

definition extractOne :: "scorer \<Rightarrow> string \<Rightarrow> string list \<Rightarrow> (string \<times> real) option" where
  "extractOne sc query choices =
     (case choices of
        [] \<Rightarrow> None
      | c # cs \<Rightarrow> Some (extract_best (sc query) (c, sc query c) cs))"

text \<open>The fuzzy stage: the record it picks, if any.\<close>

definition fuzzy_pick :: "store \<Rightarrow> scorer \<Rightarrow> string \<Rightarrow> (card \<Rightarrow> bool) option \<Rightarrow> card option" where
  "fuzzy_pick st sc base_norm level_fn =
     (if NAME_KEYS st \<noteq> [] then
        (case extractOne sc base_norm (NAME_KEYS st) of
           None \<Rightarrow> None
         | Some best \<Rightarrow>
             if snd best \<ge> 80 then
               (let variants = (case map_of (NAME_INDEX st) (fst best) of None \<Rightarrow> [] | Some vs \<Rightarrow> vs);
                    variants = (case level_fn of None \<Rightarrow> variants | Some f \<Rightarrow> filter f variants)
                in case variants of [] \<Rightarrow> None | v # vs \<Rightarrow> Some (py_min xp_or v vs))
             else None)
      else None)"

text \<open>One round of the loop over the queries.\<close>

definition match_token :: "store \<Rightarrow> scorer \<Rightarrow> acc \<Rightarrow> string \<Rightarrow> acc" where
  "match_token st sc a q0 =
     (let q = strip q0 in
      if q = [] then a
      else
        (let (base, level_fn) = parse_level_search q;
             base_norm = norm_str base
         in case exacts (CARDS st) base_norm level_fn of
              e # es \<Rightarrow>
                add_matches a (case level_fn of None \<Rightarrow> [py_min xp_or e es] | Some f \<Rightarrow> e # es)
            | [] \<Rightarrow>
                (let lowest = by_name_lowest (CARDS st) base level_fn
                 in if lowest \<noteq> [] then add_matches a (map snd lowest)
                    else (case fuzzy_pick st sc base_norm level_fn of
                            None \<Rightarrow> a
                          | Some pick \<Rightarrow> add_match a pick))))"

definition find_matching_cards :: "store \<Rightarrow> scorer \<Rightarrow> string list \<Rightarrow> card list" where
  "find_matching_cards st sc queries = fst (foldl (match_token st sc) ([], {}) queries)"

text \<open>
  The scorer of the worked examples: on strings without whitespace, as normalised
  strings are, the library's token-set ratio is 100 times twice the length of a longest
  common subsequence over the sum of the lengths, and 0 when either string is empty.
\<close>

fun lcs_len :: "string \<Rightarrow> string \<Rightarrow> nat" where
  "lcs_len [] ys = 0"
| "lcs_len (x # xs) [] = 0"
| "lcs_len (x # xs) (y # ys) =
     (if x = y then Suc (lcs_len xs ys) else max (lcs_len xs (y # ys)) (lcs_len (x # xs) ys))"

definition token_set_ratio :: scorer where
  "token_set_ratio a b =
     (if a = [] \<or> b = [] then 0
      else 100 * real (2 * lcs_len a b) / real (length a + length b))"

section \<open>Deck rendering\<close>

text \<open>
  The deck handed to \<open>build_deck_embeds\<close>: its \<open>type\<close> and \<open>id\<close>, and from its JSON the
  investigator code, the name, the version and the \<open>slots\<close> dict from card code to
  quantity (the empty map when the key is absent or holds nothing).
\<close>

record deck =
  deck_type :: string
  deck_id :: string
  investigator_code :: "string option"
  deck_name :: "string option"
  version :: "string option"
  slots :: "string \<rightharpoonup> int"

text \<open>An embed: title, description and link (the footer is the same constant on each).\<close>

record embed =
  title :: string
  description :: string
  embed_url :: "string option"

definition categories :: "string list" where
  "categories = [''Asset'', ''Permanent'', ''Event'', ''Skill'', ''Treachery'', ''Enemy'']"

text \<open>\<open>deck_cards\<close>: the catalog records whose code (or the empty string) is a key of \<open>slots\<close>.\<close>

definition deck_cards :: "card list \<Rightarrow> (string \<rightharpoonup> int) \<Rightarrow> card list" where
  "deck_cards cards sl =
     filter (\<lambda>c. sl (case code c of None \<Rightarrow> [] | Some k \<Rightarrow> k) \<noteq> None) cards"

text \<open>\<open>cat_cards\<close> before sorting.\<close>

definition cat_cards :: "card list \<Rightarrow> string \<Rightarrow> card list" where
  "cat_cards dcards category =
     (if category = ''Permanent'' then filter (\<lambda>c. permanent c = Some True) dcards
      else filter (\<lambda>c. (case type_code c of None \<Rightarrow> [] | Some t \<Rightarrow> t) = lower category
                        \<and> \<not> (permanent c = Some True)) dcards)"

text \<open>The sort key of the Asset category, and the slot shown in its sub-headings.\<close>

definition slot_key :: "card \<Rightarrow> string" where
  "slot_key c = (case slot c of None \<Rightarrow> ''zzzzzz'' | Some s \<Rightarrow> s)"

definition slot_label :: "card \<Rightarrow> string" where
  "slot_label c = (case slot c of None \<Rightarrow> ''Other'' | Some s \<Rightarrow> s)"

text \<open>One line of a card: quantity, name, level if it is not zero, link.\<close>

definition card_line :: "(string \<rightharpoonup> int) \<Rightarrow> card \<Rightarrow> string" where
  "card_line sl c =
     (let qty = (case code c of None \<Rightarrow> 1 | Some k \<Rightarrow> (case sl k of None \<Rightarrow> 1 | Some n \<Rightarrow> n))
      in str_int qty @ [CHR '' '', CHR 0xD7, CHR '' '', CHR ''[''] @ (case name c of None \<Rightarrow> [] | Some n \<Rightarrow> n) @ '']''
         @ (case xp c of None \<Rightarrow> [] | Some v \<Rightarrow> if v \<noteq> 0 then '' ('' @ str_int v @ '')'' else [])
         @ '' ('' @ (case url c of None \<Rightarrow> [] | Some u \<Rightarrow> u) @ '')'')"

definition item :: "(string \<rightharpoonup> int) \<Rightarrow> card \<Rightarrow> string" where
  "item sl c = ''- '' @ card_line sl c"

definition heading :: "string \<Rightarrow> string" where
  "heading s = newline # ''**'' @ s @ '':**''"

text \<open>The loop over the sorted assets, with \<open>last_slot\<close> (\<open>None\<close> at the start).\<close>

fun asset_parts :: "(string \<rightharpoonup> int) \<Rightarrow> string option \<Rightarrow> card list \<Rightarrow> string list" where
  "asset_parts sl last_slot [] = []"
| "asset_parts sl last_slot (c # cs) =
     (if Some (slot_label c) \<noteq> last_slot
      then heading (slot_label c) # item sl c # asset_parts sl (Some (slot_label c)) cs
      else item sl c # asset_parts sl last_slot cs)"

definition parts_of :: "(string \<rightharpoonup> int) \<Rightarrow> string \<Rightarrow> card list \<Rightarrow> string list" where
  "parts_of sl category cs =
     (if category = ''Asset'' then asset_parts sl None (sort_key slot_key cs)
      else map (item sl) cs)"

text \<open>The chunking loop: \<open>chunks\<close>, \<open>buf\<close> and \<open>count\<close>, then the lines still to place.\<close>

fun pack :: "string list \<Rightarrow> string list \<Rightarrow> nat \<Rightarrow> string list \<Rightarrow> string list" where
  "pack chunks buf count [] = (if buf \<noteq> [] then chunks @ [join [newline] buf] else chunks)"
| "pack chunks buf count (line # ls) =
     (if count + length line + 1 > 1500
      then pack (chunks @ [join [newline] buf]) [line] (length line + 1) ls
      else pack chunks (buf @ [line]) (count + length line + 1) ls)"

text \<open>The embeds of one category from its lines.\<close>

definition chunk_embed :: "string \<Rightarrow> nat \<Rightarrow> nat \<times> string \<Rightarrow> embed" where
  "chunk_embed category n ich =
     \<lparr>title = category @ ''s ['' @ str_nat (fst ich) @ ''/'' @ str_nat n @ '']'',
      description = snd ich, embed_url = None\<rparr>"

definition paginate :: "string \<Rightarrow> string list \<Rightarrow> embed list" where
  "paginate category parts =
     (let text = join [newline] parts
      in if length text \<le> 3800
         then [\<lparr>title = category @ ''s'', description = text, embed_url = None\<rparr>]
         else (let chunks = pack [] [] 0 parts
               in map (chunk_embed category (length chunks)) (zip [1 ..< Suc (length chunks)] chunks)))"

text \<open>One round of the loop over the categories.\<close>

definition category_embeds :: "card list \<Rightarrow> (string \<rightharpoonup> int) \<Rightarrow> string \<Rightarrow> embed list" where
  "category_embeds dcards sl category =
     (let cs = cat_cards dcards category
      in if cs = [] then [] else paginate category (parts_of sl category cs))"

definition header :: "card list \<Rightarrow> deck \<Rightarrow> embed" where
  "header cards d =
     (let gators = filter (\<lambda>c. code c = investigator_code d) cards;
          inv_name = (case gators of [] \<Rightarrow> ''Investigator''
                      | g # gs \<Rightarrow> (case name g of None \<Rightarrow> ''Investigator'' | Some n \<Rightarrow> n))
      in \<lparr>title = inv_name @ '': '' @ (case deck_name d of None \<Rightarrow> [] | Some n \<Rightarrow> n) @ '' ''
                   @ (case version d of None \<Rightarrow> [] | Some v \<Rightarrow> v),
          description = [],
          embed_url = Some ((if deck_type d = ''deck'' then ''https://arkhamdb.com/deck/view/''
                             else ''https://arkhamdb.com/decklist/view/'') @ deck_id d)\<rparr>)"

definition build_deck_embeds :: "store \<Rightarrow> deck \<Rightarrow> embed list" where
  "build_deck_embeds st d =
     header (CARDS st) d
       # concat (map (category_embeds (deck_cards (CARDS st) (slots d)) (slots d)) categories)"

section \<open>Auxiliary definitions\<close>

text \<open>
  What the dedup loop appends from a list of picks, given the codes seen so far; the
  codes of a list of records; and the picks one token hands to that loop.
\<close>

fun unseen :: "string set \<Rightarrow> card list \<Rightarrow> card list" where
  "unseen seen [] = []"
| "unseen seen (p # ps) =
     (case code p of
        None \<Rightarrow> unseen seen ps
      | Some k \<Rightarrow> if k \<noteq> [] \<and> k \<notin> seen then p # unseen (insert k seen) ps else unseen seen ps)"

definition codes_of :: "card list \<Rightarrow> string set" where
  "codes_of cs = {k. \<exists>c\<in>set cs. code c = Some k}"

definition token_picks :: "store \<Rightarrow> scorer \<Rightarrow> string \<Rightarrow> card list" where
  "token_picks st sc q0 =
     (let q = strip q0 in
      if q = [] then []
      else
        (let (base, level_fn) = parse_level_search q;
             base_norm = norm_str base
         in case exacts (CARDS st) base_norm level_fn of
              e # es \<Rightarrow> (case level_fn of None \<Rightarrow> [py_min xp_or e es] | Some f \<Rightarrow> e # es)
            | [] \<Rightarrow>
                (let lowest = by_name_lowest (CARDS st) base level_fn
                 in if lowest \<noteq> [] then map snd lowest
                    else (case fuzzy_pick st sc base_norm level_fn of
                            None \<Rightarrow> []
                          | Some pick \<Rightarrow> [pick]))))"

text \<open>Records and a loaded store for the worked examples.\<close>

definition mk_card :: "string \<Rightarrow> string \<Rightarrow> int \<Rightarrow> card" where
  "mk_card k n x =
     \<lparr>code = Some k, name = Some n, xp = Some x, type_code = None, permanent = None,
      slot = None, url = None\<rparr>"

definition example_store :: store where
  "example_store =
     refresh_name_index
       \<lparr>CARDS = [mk_card ''01060'' ''Shrivelling'' 0, mk_card ''02306'' ''Shrivelling'' 3,
                 mk_card ''01080'' ''Lucky!'' 0],
        NAME_INDEX = [], NAME_KEYS = []\<rparr>"

text \<open>\<open>m\<close> is the first element of \<open>xs\<close> with the least key.\<close>

definition first_min :: "('a \<Rightarrow> int) \<Rightarrow> 'a list \<Rightarrow> 'a \<Rightarrow> bool" where
  "first_min key xs m \<longleftrightarrow>
     (\<exists>pre post. xs = pre @ m # post \<and> (\<forall>c\<in>set pre. key m < key c) \<and> (\<forall>c\<in>set post. key m \<le> key c))"

definition lucky_store :: store where
  "lucky_store =
     refresh_name_index
       \<lparr>CARDS = [mk_card ''03107'' ''Lucky Cigarette Case'' 0, mk_card ''04232'' ''Lucky!'' 2,
                 mk_card ''01080'' ''Lucky!'' 0],
        NAME_INDEX = [], NAME_KEYS = []\<rparr>"

definition foo_store :: store where
  "foo_store =
     refresh_name_index
       \<lparr>CARDS = [mk_card ''1'' ''Foo'' 0, mk_card ''2'' ''Foo'' 2],
        NAME_INDEX = [], NAME_KEYS = []\<rparr>"

definition name_store :: store where
  "name_store =
     refresh_name_index
       \<lparr>CARDS = [mk_card ''03'' ''Name'' 3, mk_card ''00'' ''Name'' 0, mk_card ''02'' ''Name'' 2],
        NAME_INDEX = [], NAME_KEYS = []\<rparr>"

text \<open>
  The normalised name of a record; the candidates of the substring stage; and, for a key,
  the record the substring stage keeps among given candidates.
\<close>

definition nkey :: "card \<Rightarrow> string" where
  "nkey c = norm_str (name_or c)"

definition cand :: "string \<Rightarrow> (card \<Rightarrow> bool) option \<Rightarrow> card \<Rightarrow> bool" where
  "cand base level_fn c \<longleftrightarrow> str_in base (lower (name_or c)) \<and> passes level_fn c"

definition pick_of :: "string \<Rightarrow> card list \<Rightarrow> card option" where
  "pick_of k cs = (case filter (\<lambda>c. nkey c = k) cs of [] \<Rightarrow> None | x # r \<Rightarrow> Some (py_min xp_or x r))"

definition variants_of :: "string \<Rightarrow> card list \<Rightarrow> card list option" where
  "variants_of k cs =
     (if k = [] then None
      else case filter (\<lambda>c. nkey c = k) cs of [] \<Rightarrow> None | x # r \<Rightarrow> Some (x # r))"

text \<open>What a line costs in the chunking loop: its length and one separator.\<close>

definition cost :: "string \<Rightarrow> nat" where
  "cost line = length line + 1"

text \<open>Decks for the worked examples.\<close>

definition mk_deck_card :: "string \<Rightarrow> string \<Rightarrow> string \<Rightarrow> bool option \<Rightarrow> string option \<Rightarrow> card" where
  "mk_deck_card k n t p s =
     \<lparr>code = Some k, name = Some n, xp = None, type_code = Some t, permanent = p,
      slot = s, url = None\<rparr>"

definition deck_store :: store where
  "deck_store =
     refresh_name_index
       \<lparr>CARDS = [mk_deck_card ''01058'' ''Forbidden Knowledge'' ''asset'' None None,
                 mk_deck_card ''01020'' ''Machete'' ''asset'' None (Some ''Hand''),
                 mk_deck_card ''02158'' ''Charisma'' ''asset'' (Some True) None,
                 mk_deck_card ''01080'' ''Lucky!'' ''event'' (Some False) None,
                 mk_deck_card ''01072'' ''Leather Coat'' ''asset'' None (Some ''Body''),
                 mk_deck_card ''01001'' ''Roland Banks'' ''investigator'' None None,
                 mk_deck_card ''01089'' ''Guts'' ''skill'' None None],
        NAME_INDEX = [], NAME_KEYS = []\<rparr>"

definition example_deck :: deck where
  "example_deck =
     \<lparr>deck_type = ''deck'', deck_id = ''77'', investigator_code = Some ''01001'',
      deck_name = Some ''Test'', version = Some ''1.0'',
      slots = map_of [(''01058'', 1), (''01020'', 2), (''02158'', 1), (''01080'', 2), (''01072'', 1)]\<rparr>"

definition skill_deck :: deck where
  "skill_deck = example_deck\<lparr>slots := (slots example_deck)(''01089'' \<mapsto> 1)\<rparr>"




text \<open>The cards of the Asset category after the sort.\<close>

definition sorted_assets :: "card list \<Rightarrow> card list" where
  "sorted_assets dcards = sort_key slot_key (cat_cards dcards ''Asset'')"

section \<open>Evaluation rules\<close>

lemmas string_eval =
  strip_def isspace_def ord_c_def newline_def lower_def lower_char_def is_upper_def
  norm_str_def is_alnum_lower_def is_digit_def py_int_def str_int_def str_nat.simps
  digit_char_def

lemmas resolve_eval =
  parse_level_search_def level_filter_def name_or_def xp_or_def Let_def
  find_matching_cards_def match_token_def exacts_def passes_def by_name_lowest_def
  lowest_step_def fuzzy_pick_def extractOne_def token_set_ratio_def add_match_def
  add_matches_def refresh_name_index_def build_name_index_def index_add_def
  mk_card_def example_store_def

section \<open>The dedup loop\<close>

lemma codes_of_Nil [simp]: "codes_of [] = {}"
  by (simp add: codes_of_def)

lemma codes_of_Cons: "codes_of (c # cs) = (case code c of None \<Rightarrow> {} | Some k \<Rightarrow> {k}) \<union> codes_of cs"
  by (auto simp: codes_of_def split: option.splits)

lemma codes_of_append: "codes_of (xs @ ys) = codes_of xs \<union> codes_of ys"
  by (auto simp: codes_of_def)

lemma add_matches_Nil [simp]: "add_matches a [] = a"
  by (simp add: add_matches_def)

lemma add_matches_Cons: "add_matches a (p # ps) = add_matches (add_match a p) ps"
  by (simp add: add_matches_def)

lemma add_matches_single: "add_matches a [p] = add_match a p"
  by (simp add: add_matches_def)

lemma add_matches_append: "add_matches a (xs @ ys) = add_matches (add_matches a xs) ys"
  by (simp add: add_matches_def)

lemma add_matches_unseen:
  "add_matches (ms, seen) ps = (ms @ unseen seen ps, seen \<union> codes_of (unseen seen ps))"
proof (induction ps arbitrary: ms seen)
  case Nil
  show ?case by simp
next
  case (Cons p ps)
  show ?case
  proof (cases "code p")
    case None
    then show ?thesis using Cons.IH [of ms seen]
      by (simp add: add_matches_Cons add_match_def)
  next
    case (Some k)
    show ?thesis
    proof (cases "k \<noteq> [] \<and> k \<notin> seen")
      case True
      then show ?thesis using Some Cons.IH [of "ms @ [p]" "insert k seen"]
        by (simp add: add_matches_Cons add_match_def codes_of_Cons)
    next
      case False
      then show ?thesis using Some Cons.IH [of ms seen]
        by (auto simp add: add_matches_Cons add_match_def)
    qed
  qed
qed

lemma match_token_picks: "match_token st sc a q = add_matches a (token_picks st sc q)"
  by (simp add: match_token_def token_picks_def Let_def add_matches_single
      split: prod.splits list.splits option.splits)

lemma foldl_match_token:
  "foldl (match_token st sc) a qs = add_matches a (concat (map (token_picks st sc) qs))"
  by (induction qs arbitrary: a) (simp_all add: match_token_picks add_matches_append)

lemma find_matching_cards_unseen:
  "find_matching_cards st sc qs = unseen {} (concat (map (token_picks st sc) qs))"
  by (simp add: find_matching_cards_def foldl_match_token add_matches_unseen)

lemma unseen_set:
  "c \<in> set (unseen S ps) \<Longrightarrow> c \<in> set ps \<and> (\<exists>k. code c = Some k \<and> k \<noteq> [] \<and> k \<notin> S)"
  by (induction ps arbitrary: S) (auto split: option.splits if_splits)

lemma unseen_distinct: "distinct (map code (unseen S ps))"
proof (induction ps arbitrary: S)
  case Nil
  show ?case by simp
next
  case (Cons p ps)
  show ?case
  proof (cases "code p")
    case None
    then show ?thesis using Cons.IH by simp
  next
    case (Some k)
    have "Some k \<notin> code ` set (unseen (insert k S) ps)"
      using unseen_set [of _ "insert k S" ps] by force
    then show ?thesis using Some Cons.IH by simp
  qed
qed

lemma unseen_append:
  "unseen S (xs @ ys) = unseen S xs @ unseen (S \<union> codes_of (unseen S xs)) ys"
proof (induction xs arbitrary: S)
  case Nil
  show ?case by simp
next
  case (Cons p xs)
  show ?case
  proof (cases "code p")
    case None
    then show ?thesis using Cons.IH by simp
  next
    case (Some k)
    then show ?thesis using Cons.IH [of S] Cons.IH [of "insert k S"]
      by (simp add: codes_of_Cons)
  qed
qed

lemma unseen_union:
  "unseen (S \<union> T) ys = filter (\<lambda>c. code c \<notin> Some ` T) (unseen S ys)"
proof (induction ys arbitrary: S)
  case Nil
  show ?case by simp
next
  case (Cons p ps)
  show ?case
  proof (cases "code p")
    case None
    then show ?thesis using Cons.IH by simp
  next
    case (Some k)
    show ?thesis
    proof (cases "k \<noteq> [] \<and> k \<notin> S")
      case False
      then show ?thesis using Some Cons.IH [of S] by auto
    next
      case fresh: True
      show ?thesis
      proof (cases "k \<in> T")
        case False
        then show ?thesis using Some fresh Cons.IH [of "insert k S"] by auto
      next
        case True
        then have eq: "insert k S \<union> T = S \<union> T" by auto
        have "unseen (S \<union> T) ps = filter (\<lambda>c. code c \<notin> Some ` T) (unseen (insert k S) ps)"
          using Cons.IH [of "insert k S"] eq by simp
        then show ?thesis using Some fresh True by simp
      qed
    qed
  qed
qed

lemma codes_of_image: "(\<forall>c\<in>set cs. code c \<noteq> None) \<Longrightarrow> Some ` codes_of cs = code ` set cs"
  by (force simp: codes_of_def image_iff)

section \<open>Minimum, trimming, containment and the qualifier pattern\<close>

lemma py_min_invariant:
  "(\<forall>c\<in>set pre. key b < key c) \<Longrightarrow> (\<forall>c\<in>set mid. key b \<le> key c) \<Longrightarrow>
   first_min key (pre @ b # mid @ cs) (py_min key b cs)"
proof (induction cs arbitrary: b pre mid)
  case Nil
  then show ?case unfolding first_min_def by auto
next
  case (Cons c cs)
  show ?case
  proof (cases "key c < key b")
    case True
    have "first_min key ((pre @ b # mid) @ c # [] @ cs) (py_min key c cs)"
      using Cons.prems True by (intro Cons.IH) auto
    then show ?thesis using True by simp
  next
    case False
    have "first_min key (pre @ b # (mid @ [c]) @ cs) (py_min key b cs)"
      using Cons.prems False by (intro Cons.IH) auto
    then show ?thesis using False by simp
  qed
qed

lemma py_min_first_min: "first_min key (b # cs) (py_min key b cs)"
  using py_min_invariant [of "[]" key b "[]" cs] by simp

lemma first_min_mem: "first_min key xs m \<Longrightarrow> m \<in> set xs"
  by (auto simp: first_min_def)

lemma first_min_least: "first_min key xs m \<Longrightarrow> c \<in> set xs \<Longrightarrow> key m \<le> key c"
  by (fastforce simp: first_min_def)

lemma strip_fixed: "s = [] \<or> (\<not> isspace (hd s) \<and> \<not> isspace (last s)) \<Longrightarrow> strip s = s"
proof (cases "s = []")
  case True
  then show ?thesis by (simp add: strip_def)
next
  case False
  assume "s = [] \<or> (\<not> isspace (hd s) \<and> \<not> isspace (last s))"
  with False have h: "\<not> isspace (hd s)" and l: "\<not> isspace (last s)" by auto
  have 1: "dropWhile isspace s = s"
    using h by (simp add: dropWhile_eq_self_iff)
  have "\<not> isspace (hd (rev s))" using l False by (simp add: hd_rev)
  then have 2: "dropWhile isspace (rev s) = rev s"
    by (simp add: dropWhile_eq_self_iff)
  show ?thesis by (simp add: strip_def 1 2)
qed

lemma last_dropWhile: "dropWhile P xs \<noteq> [] \<Longrightarrow> last (dropWhile P xs) = last xs"
  by (metis last_appendR takeWhile_dropWhile_id)

lemma strip_ends: "strip s = [] \<or> (\<not> isspace (hd (strip s)) \<and> \<not> isspace (last (strip s)))"
proof (cases "strip s = []")
  case True
  then show ?thesis by simp
next
  case False
  let ?u = "dropWhile isspace s"
  let ?v = "dropWhile isspace (rev ?u)"
  have s: "strip s = rev ?v" by (simp add: strip_def)
  with False have v: "?v \<noteq> []" by simp
  have u: "?u \<noteq> []"
  proof
    assume e: "?u = []"
    have "?v = []" unfolding e by simp
    with v show False by simp
  qed
  have "\<not> isspace (hd ?v)" using v by (rule hd_dropWhile)
  then have l: "\<not> isspace (last (strip s))" using v by (simp add: s last_rev)
  have "last ?v = last (rev ?u)" using v by (rule last_dropWhile)
  also have "\<dots> = hd ?u" using u by (simp add: last_rev)
  finally have "hd (strip s) = hd ?u" using v by (simp add: s hd_rev)
  moreover have "\<not> isspace (hd ?u)" using u by (rule hd_dropWhile)
  ultimately show ?thesis using l by simp
qed

lemma strip_idem: "strip (strip s) = strip s"
  using strip_ends [of s] by (intro strip_fixed) auto

lemma starts_with_iff: "starts_with sub s \<longleftrightarrow> (\<exists>ss. s = sub @ ss)"
  by (induction sub s rule: starts_with.induct) auto

lemma str_in_iff: "str_in sub s \<longleftrightarrow> (\<exists>ps ss. s = ps @ sub @ ss)"
proof (induction s)
  case Nil
  show ?case by auto
next
  case (Cons y ys)
  show ?case
  proof
    assume "str_in sub (y # ys)"
    then consider "starts_with sub (y # ys)" | "str_in sub ys" by auto
    then show "\<exists>ps ss. y # ys = ps @ sub @ ss"
    proof cases
      case 1
      then obtain ss where "y # ys = sub @ ss" by (auto simp: starts_with_iff)
      then have "y # ys = [] @ sub @ ss" by simp
      then show ?thesis by blast
    next
      case 2
      then obtain ps ss where "ys = ps @ sub @ ss" using Cons.IH by auto
      then have "y # ys = (y # ps) @ sub @ ss" by simp
      then show ?thesis by blast
    qed
  next
    assume "\<exists>ps ss. y # ys = ps @ sub @ ss"
    then obtain ps ss where e: "y # ys = ps @ sub @ ss" by auto
    show "str_in sub (y # ys)"
    proof (cases ps)
      case Nil
      then have "starts_with sub (y # ys)" using e by (auto simp: starts_with_iff)
      then show ?thesis by simp
    next
      case (Cons p ps')
      then have "ys = ps' @ sub @ ss" using e by simp
      then have "str_in sub ys" using Cons.IH by blast
      then show ?thesis by simp
    qed
  qed
qed

lemma str_in_empty [simp]: "str_in [] s"
  by (induction s) auto

lemma str_in_lower_iff:
  "str_in (lower b) (lower n) \<longleftrightarrow> (\<exists>ps u ss. n = ps @ u @ ss \<and> lower u = lower b)"
proof
  assume "str_in (lower b) (lower n)"
  then obtain ps ss where "map lower_char n = ps @ map lower_char b @ ss"
    by (auto simp: str_in_iff lower_def)
  then obtain n1 r where r: "n = n1 @ r" "map lower_char b @ ss = map lower_char r"
    unfolding map_eq_append_conv by blast
  then obtain n2 n3 where "r = n2 @ n3" "map lower_char b = map lower_char n2"
    unfolding append_eq_map_conv by blast
  with r have "n = n1 @ n2 @ n3" "map lower_char n2 = map lower_char b" by auto
  then show "\<exists>ps u ss. n = ps @ u @ ss \<and> lower u = lower b"
    by (auto simp: lower_def)
next
  assume "\<exists>ps u ss. n = ps @ u @ ss \<and> lower u = lower b"
  then obtain ps u ss where "n = ps @ u @ ss" "lower u = lower b" by auto
  then have "lower n = lower ps @ lower b @ lower ss" by (simp add: lower_def)
  then show "str_in (lower b) (lower n)" unfolding str_in_iff by blast
qed

lemma lazy_group_closing:
  "newline \<notin> set X \<Longrightarrow> lazy_group g (X @ '')'') = Some (g @ X)"
  by (induction X arbitrary: g) (auto simp: newline_def)

lemma match_at_other: "c \<noteq> CHR ''('' \<Longrightarrow> match_at (c # r) = None"
  by (cases r) auto

lemma re_search_first_paren:
  "CHR ''('' \<notin> set B \<Longrightarrow> X \<noteq> [] \<Longrightarrow> newline \<notin> set X \<Longrightarrow>
   re_search i (B @ ''('' @ X @ '')'') = Some (i + length B, X)"
proof (induction B arbitrary: i)
  case Nil
  then obtain d ds where X: "X = d # ds" by (cases X) auto
  then have "lazy_group [d] (ds @ '')'') = Some ([d] @ ds)"
    using Nil.prems by (intro lazy_group_closing) auto
  then show ?case using X Nil.prems by auto
next
  case (Cons b B)
  then have "match_at (b # B @ ''('' @ X @ '')'') = None"
    by (intro match_at_other) auto
  then show ?case using Cons by simp
qed

lemma re_search_no_paren: "CHR ''('' \<notin> set s \<Longrightarrow> re_search i s = None"
  by (induction s arbitrary: i) (auto simp: match_at_other)

lemma parse_level_search_paren:
  assumes "strip q = B @ ''('' @ X @ '')''" and "CHR ''('' \<notin> set B"
    and "X \<noteq> []" and "newline \<notin> set X"
  shows "parse_level_search (strip q)
         = (lower (strip B), Some (level_filter (strip X) (lower (strip B))))"
proof -
  have e: "strip (strip q) = B @ ''('' @ X @ '')''"
    using strip_idem [of q] assms(1) by (rule trans)
  have "re_search 0 (strip (strip q)) = Some (0 + length B, X)"
    unfolding e by (rule re_search_first_paren [OF assms(2-4)])
  then have r: "re_search 0 (strip (strip q)) = Some (length B, X)" by simp
  show ?thesis
    unfolding parse_level_search_def r by (simp add: assms(1) Let_def)
qed

lemma parse_level_search_plain:
  "CHR ''('' \<notin> set (strip q) \<Longrightarrow> parse_level_search (strip q) = (lower (strip q), None)"
  by (simp add: parse_level_search_def re_search_no_paren strip_idem)

lemma lower_is_u: "lower l = ''u'' \<Longrightarrow> l = ''u'' \<or> l = ''U''"
proof -
  assume a: "lower l = ''u''"
  then obtain c where l: "l = [c]" and c: "lower_char c = CHR ''u''"
    by (auto simp: lower_def)
  have "c = CHR ''u'' \<or> c = CHR ''U''"
    using c by (cases c) (auto simp: lower_char_def split: if_splits)
  then show ?thesis using l by auto
qed

lemma py_int_u: "lower l = ''u'' \<Longrightarrow> py_int l = None"
  by (auto dest!: lower_is_u simp: string_eval)

lemma unseen_all:
  "distinct (map code ps) \<Longrightarrow> \<forall>c\<in>set ps. \<exists>k. code c = Some k \<and> k \<noteq> [] \<and> k \<notin> S \<Longrightarrow>
   unseen S ps = ps"
proof (induction ps arbitrary: S)
  case Nil
  show ?case by simp
next
  case (Cons p ps)
  then obtain k where k: "code p = Some k" "k \<noteq> []" "k \<notin> S" by auto
  have "\<forall>c\<in>set ps. \<exists>k'. code c = Some k' \<and> k' \<noteq> [] \<and> k' \<notin> insert k S"
  proof
    fix c assume c: "c \<in> set ps"
    then obtain k' where k': "code c = Some k'" "k' \<noteq> []" "k' \<notin> S" using Cons.prems(2) by auto
    have "code p \<notin> code ` set ps" using Cons.prems(1) by simp
    then have "code c \<noteq> code p" using c by (metis imageI)
    then show "\<exists>k'. code c = Some k' \<and> k' \<noteq> [] \<and> k' \<notin> insert k S" using k k' by auto
  qed
  then have "unseen (insert k S) ps = ps" using Cons.prems(1) by (intro Cons.IH) auto
  then show ?case using k by simp
qed

lemma token_picks_exact:
  assumes "strip q \<noteq> []" and "parse_level_search (strip q) = (base, level_fn)"
    and "exacts (CARDS st) (norm_str base) level_fn = e # es"
  shows "token_picks st sc q = (case level_fn of None \<Rightarrow> [py_min xp_or e es] | Some f \<Rightarrow> e # es)"
  using assms by (simp add: token_picks_def)

lemma find_matching_cards_single:
  "find_matching_cards st sc [q] = unseen {} (token_picks st sc q)"
  by (simp add: find_matching_cards_unseen)

lemma token_picks_index_free:
  assumes "strip q \<noteq> []" and "parse_level_search (strip q) = (base, level_fn)"
    and "exacts (CARDS st) (norm_str base) level_fn \<noteq> []"
  shows "token_picks (st\<lparr>NAME_INDEX := idx, NAME_KEYS := keys\<rparr>) sc' q = token_picks st sc q"
proof -
  obtain e es where e: "exacts (CARDS st) (norm_str base) level_fn = e # es"
    using assms(3) by (cases "exacts (CARDS st) (norm_str base) level_fn") auto
  then have e': "exacts (CARDS (st\<lparr>NAME_INDEX := idx, NAME_KEYS := keys\<rparr>)) (norm_str base) level_fn = e # es"
    by simp
  show ?thesis
    unfolding token_picks_exact [OF assms(1,2) e] token_picks_exact [OF assms(1,2) e'] ..
qed

lemma first_min_two:
  "first_min key [a, b] m \<Longrightarrow> key b < key a \<Longrightarrow> m = b"
  by (fastforce simp: first_min_def Cons_eq_append_conv)

lemma exacts_same_name:
  assumes "\<forall>c\<in>set cs. norm_str (name_or c) = k" and "\<forall>c\<in>set cs. f c = P c"
  shows "exacts cs k (Some f) = filter P cs"
  unfolding exacts_def using assms by (intro filter_cong) (auto simp: passes_def)

lemma find_single_exact_qualifier:
  assumes "strip q \<noteq> []" and "parse_level_search (strip q) = (base, Some f)"
    and "exacts (CARDS st) (norm_str base) (Some f) = ps" and "ps \<noteq> []"
    and "distinct (map code ps)" and "\<forall>c\<in>set ps. \<exists>k. code c = Some k \<and> k \<noteq> []"
  shows "find_matching_cards st sc [q] = ps"
proof -
  obtain e es where e: "ps = e # es" using assms(4) by (cases ps) auto
  have "token_picks st sc q = ps"
    using token_picks_exact [OF assms(1,2), of st e es sc] assms(3) e by simp
  moreover have "unseen {} ps = ps" using assms(5,6) by (intro unseen_all) auto
  ultimately show ?thesis by (simp add: find_matching_cards_single)
qed

lemma first_min_hd_filter:
  assumes "first_min key xs m" and "\<exists>c\<in>set xs. key c = v" and "\<forall>c\<in>set xs. v \<le> key c"
  shows "hd (filter (\<lambda>c. key c = v) xs) = m"
proof -
  obtain pre post where x: "xs = pre @ m # post" and pre: "\<forall>c\<in>set pre. key m < key c"
    and post: "\<forall>c\<in>set post. key m \<le> key c"
    using assms(1) by (auto simp: first_min_def)
  obtain c where c: "c \<in> set xs" "key c = v" using assms(2) by auto
  have "key m \<le> key c" using c(1) x pre post by auto
  moreover have "v \<le> key m" using assms(3) x by auto
  ultimately have m: "key m = v" using c(2) by simp
  have "filter (\<lambda>c. key c = v) pre = []"
    using pre m by (auto simp: filter_empty_conv)
  then show ?thesis using x m by simp
qed

lemma map_of_dict_set: "map_of (dict_set d k v) = (map_of d)(k \<mapsto> v)"
  by (induction d k v rule: dict_set.induct) auto

lemma keys_dict_set:
  "map fst (dict_set d k v) = (if k \<in> fst ` set d then map fst d else map fst d @ [k])"
  by (induction d k v rule: dict_set.induct) auto

lemma distinct_dict_set: "distinct (map fst d) \<Longrightarrow> distinct (map fst (dict_set d k v))"
  by (simp add: keys_dict_set)

lemma py_min_snoc:
  "py_min key b (cs @ [c]) = (if key c < key (py_min key b cs) then c else py_min key b cs)"
  by (induction cs arbitrary: b) auto

lemma pick_of_snoc:
  "pick_of k (cs @ [c]) =
     (if nkey c = k
      then (case pick_of k cs of None \<Rightarrow> Some c
            | Some cur \<Rightarrow> if xp_or c < xp_or cur then Some c else Some cur)
      else pick_of k cs)"
  by (cases "filter (\<lambda>c. nkey c = k) cs") (simp_all add: pick_of_def py_min_snoc)

lemma by_name_lowest_snoc:
  "by_name_lowest (cs @ [c]) base lf = lowest_step base lf (by_name_lowest cs base lf) c"
  by (simp add: by_name_lowest_def)

lemma by_name_lowest_invariant:
  "distinct (map fst (by_name_lowest cs base lf))
   \<and> (\<forall>k. map_of (by_name_lowest cs base lf) k = pick_of k (filter (cand base lf) cs))"
proof (induction cs rule: rev_induct)
  case Nil
  show ?case by (simp add: by_name_lowest_def pick_of_def)
next
  case (snoc c cs)
  let ?d = "by_name_lowest cs base lf"
  have d: "distinct (map fst ?d)" and m: "\<And>k. map_of ?d k = pick_of k (filter (cand base lf) cs)"
    using snoc by auto
  show ?case
  proof (cases "cand base lf c")
    case False
    then have "lowest_step base lf ?d c = ?d" by (auto simp add: lowest_step_def cand_def)
    then show ?thesis using d m False by (simp add: by_name_lowest_snoc)
  next
    case True
    show ?thesis
    proof (cases "map_of ?d (nkey c)")
      case None
      then have s: "lowest_step base lf ?d c = dict_set ?d (nkey c) c"
        using True by (simp add: lowest_step_def cand_def nkey_def)
      have "pick_of (nkey c) (filter (cand base lf) cs) = None" using None m by simp
      then show ?thesis using d m True
        by (auto simp add: by_name_lowest_snoc s distinct_dict_set map_of_dict_set pick_of_snoc)
    next
      case (Some cur)
      have p: "pick_of (nkey c) (filter (cand base lf) cs) = Some cur" using Some m by simp
      show ?thesis
      proof (cases "xp_or c < xp_or cur")
        case lt: True
        then have s: "lowest_step base lf ?d c = dict_set ?d (nkey c) c"
          using True Some by (simp add: lowest_step_def cand_def nkey_def)
        show ?thesis using d m True p lt
          by (auto simp add: by_name_lowest_snoc s distinct_dict_set map_of_dict_set pick_of_snoc)
      next
        case ge: False
        then have s: "lowest_step base lf ?d c = ?d"
          using True Some by (simp add: lowest_step_def cand_def nkey_def)
        show ?thesis using d m True p ge
          by (auto simp add: by_name_lowest_snoc s pick_of_snoc)
      qed
    qed
  qed
qed

lemma pick_of_Some:
  "pick_of k cs = Some p \<Longrightarrow> first_min xp_or (filter (\<lambda>c. nkey c = k) cs) p"
  using py_min_first_min [of xp_or]
  by (auto simp: pick_of_def split: list.splits)

lemma pick_of_None: "pick_of k cs = None \<longleftrightarrow> (\<forall>c\<in>set cs. nkey c \<noteq> k)"
proof -
  have "pick_of k cs = None \<longleftrightarrow> filter (\<lambda>c. nkey c = k) cs = []"
    by (simp add: pick_of_def split: list.splits)
  then show ?thesis by (simp add: filter_empty_conv)
qed

lemma by_name_lowest_pair:
  "(k, p) \<in> set (by_name_lowest cs base lf) \<longleftrightarrow> pick_of k (filter (cand base lf) cs) = Some p"
  using by_name_lowest_invariant [of cs base lf] by (metis map_of_eq_Some_iff)

lemma by_name_lowest_pick:
  assumes "(k, p) \<in> set (by_name_lowest cs base lf)"
  shows "p \<in> set cs \<and> cand base lf p \<and> nkey p = k
         \<and> (\<forall>c\<in>set cs. cand base lf c \<and> nkey c = k \<longrightarrow> xp_or p \<le> xp_or c)"
proof -
  let ?g = "filter (\<lambda>c. nkey c = k) (filter (cand base lf) cs)"
  have f: "first_min xp_or ?g p"
    using assms by (intro pick_of_Some) (simp add: by_name_lowest_pair)
  then have "p \<in> set ?g" by (rule first_min_mem)
  moreover have "\<forall>c\<in>set ?g. xp_or p \<le> xp_or c" using first_min_least [OF f] by blast
  ultimately show ?thesis by auto
qed

lemma by_name_lowest_keys: "map nkey (map snd (by_name_lowest cs base lf)) = map fst (by_name_lowest cs base lf)"
  using by_name_lowest_pick [of _ _ cs base lf] by (auto simp: map_eq_conv)

lemma by_name_lowest_covers:
  assumes "c \<in> set cs" and "cand base lf c"
  shows "\<exists>p\<in>set (map snd (by_name_lowest cs base lf)). nkey p = nkey c"
proof -
  have "pick_of (nkey c) (filter (cand base lf) cs) \<noteq> None"
    using assms by (auto simp: pick_of_None)
  then obtain p where "pick_of (nkey c) (filter (cand base lf) cs) = Some p" by auto
  then have p: "(nkey c, p) \<in> set (by_name_lowest cs base lf)" by (simp add: by_name_lowest_pair)
  then have "nkey p = nkey c" using by_name_lowest_pick by blast
  then show ?thesis using p by force
qed

lemma by_name_lowest_empty:
  "by_name_lowest cs base lf = [] \<longleftrightarrow> (\<forall>c\<in>set cs. \<not> cand base lf c)"
proof
  assume e: "by_name_lowest cs base lf = []"
  show "\<forall>c\<in>set cs. \<not> cand base lf c"
  proof (intro ballI notI)
    fix c assume "c \<in> set cs" "cand base lf c"
    then have "\<exists>p\<in>set (map snd (by_name_lowest cs base lf)). nkey p = nkey c"
      by (rule by_name_lowest_covers)
    then show False using e by simp
  qed
next
  assume n: "\<forall>c\<in>set cs. \<not> cand base lf c"
  show "by_name_lowest cs base lf = []"
  proof (cases "by_name_lowest cs base lf")
    case Nil then show ?thesis .
  next
    case (Cons kp r)
    then have "(fst kp, snd kp) \<in> set (by_name_lowest cs base lf)" by simp
    then show ?thesis using by_name_lowest_pick n by blast
  qed
qed

lemma build_name_index_snoc:
  "build_name_index (cs @ [c]) = index_add (build_name_index cs) c"
  by (simp add: build_name_index_def)

lemma variants_of_snoc:
  "variants_of k (cs @ [c]) =
     (if nkey c = k \<and> k \<noteq> []
      then Some ((case variants_of k cs of None \<Rightarrow> [] | Some l \<Rightarrow> l) @ [c])
      else variants_of k cs)"
  by (cases "filter (\<lambda>c. nkey c = k) cs") (auto simp add: variants_of_def)

lemma build_name_index_invariant:
  "distinct (map fst (build_name_index cs))
   \<and> (\<forall>k. map_of (build_name_index cs) k = variants_of k cs)"
proof (induction cs rule: rev_induct)
  case Nil
  show ?case by (simp add: build_name_index_def variants_of_def)
next
  case (snoc c cs)
  let ?d = "build_name_index cs"
  have d: "distinct (map fst ?d)" and m: "\<And>k. map_of ?d k = variants_of k cs"
    using snoc by auto
  show ?case
  proof (cases "nkey c = []")
    case True
    then have "index_add ?d c = ?d" by (simp add: index_add_def nkey_def)
    then show ?thesis using d m True by (auto simp add: build_name_index_snoc variants_of_snoc)
  next
    case False
    then have "index_add ?d c
        = dict_set ?d (nkey c) ((case variants_of (nkey c) cs of None \<Rightarrow> [] | Some l \<Rightarrow> l) @ [c])"
      by (simp add: index_add_def nkey_def m [symmetric] Let_def)
    then show ?thesis using d m False
      by (auto simp add: build_name_index_snoc distinct_dict_set map_of_dict_set variants_of_snoc)
  qed
qed

lemma build_name_index_lookup:
  "map_of (build_name_index cs) k = Some vs \<Longrightarrow>
   vs = filter (\<lambda>c. nkey c = k) cs \<and> vs \<noteq> [] \<and> k \<noteq> []"
  using build_name_index_invariant [of cs]
  by (auto simp: variants_of_def split: if_splits list.splits)

lemma build_name_index_key:
  "k \<in> set (map fst (build_name_index cs)) \<Longrightarrow>
   map_of (build_name_index cs) k = Some (filter (\<lambda>c. nkey c = k) cs)"
proof -
  assume "k \<in> set (map fst (build_name_index cs))"
  then obtain vs where "map_of (build_name_index cs) k = Some vs"
    by (metis list.set_map map_of_eq_None_iff not_Some_eq)
  then show ?thesis using build_name_index_lookup by blast
qed

lemma extract_best_invariant:
  "(\<forall>c\<in>set pre. sc c < sc b) \<Longrightarrow> (\<forall>c\<in>set mid. sc c \<le> sc b) \<Longrightarrow>
   \<exists>m pre' post'. extract_best sc (b, sc b) cs = (m, sc m)
      \<and> pre @ b # mid @ cs = pre' @ m # post'
      \<and> (\<forall>c\<in>set pre'. sc c < sc m) \<and> (\<forall>c\<in>set post'. sc c \<le> sc m)"
proof (induction cs arbitrary: b pre mid)
  case Nil
  then show ?case by auto
next
  case (Cons c cs)
  show ?case
  proof (cases "sc c > sc b")
    case True
    have "\<exists>m pre' post'. extract_best sc (c, sc c) cs = (m, sc m)
      \<and> (pre @ b # mid) @ c # [] @ cs = pre' @ m # post'
      \<and> (\<forall>c\<in>set pre'. sc c < sc m) \<and> (\<forall>c\<in>set post'. sc c \<le> sc m)"
      using Cons.prems True by (intro Cons.IH) auto
    then show ?thesis using True by simp
  next
    case False
    have "\<exists>m pre' post'. extract_best sc (b, sc b) cs = (m, sc m)
      \<and> pre @ b # (mid @ [c]) @ cs = pre' @ m # post'
      \<and> (\<forall>c\<in>set pre'. sc c < sc m) \<and> (\<forall>c\<in>set post'. sc c \<le> sc m)"
      using Cons.prems False by (intro Cons.IH) auto
    then show ?thesis using False by simp
  qed
qed

lemma extractOne_first_best:
  "keys \<noteq> [] \<Longrightarrow>
   \<exists>best pre post. extractOne sc query keys = Some (best, sc query best)
      \<and> keys = pre @ best # post
      \<and> (\<forall>k\<in>set pre. sc query k < sc query best) \<and> (\<forall>k\<in>set post. sc query k \<le> sc query best)"
proof -
  assume "keys \<noteq> []"
  then obtain c cs where k: "keys = c # cs" by (cases keys) auto
  show ?thesis
    using extract_best_invariant [of "[]" "sc query" c "[]" cs]
    by (simp add: extractOne_def k)
qed

lemma token_picks_fuzzy:
  assumes "strip q \<noteq> []" and "parse_level_search (strip q) = (base, level_fn)"
    and "exacts (CARDS st) (norm_str base) level_fn = []"
    and "by_name_lowest (CARDS st) base level_fn = []"
  shows "token_picks st sc q
         = (case fuzzy_pick st sc (norm_str base) level_fn of None \<Rightarrow> [] | Some p \<Rightarrow> [p])"
  using assms by (simp add: token_picks_def)

lemma filter_passes:
  "(case level_fn of None \<Rightarrow> vs | Some f \<Rightarrow> filter f vs) = filter (passes level_fn) vs"
  by (cases level_fn) (auto simp: passes_def intro: filter_cong)

lemma fuzzy_pick_best:
  assumes "extractOne sc bn (NAME_KEYS st) = Some (best, s)" and "NAME_KEYS st \<noteq> []"
  shows "fuzzy_pick st sc bn level_fn
         = (if s \<ge> 80
            then (case filter (passes level_fn)
                         (case map_of (NAME_INDEX st) best of None \<Rightarrow> [] | Some vs \<Rightarrow> vs) of
                    [] \<Rightarrow> None
                  | v # vs \<Rightarrow> Some (py_min xp_or v vs))
            else None)"
  using assms by (simp add: fuzzy_pick_def Let_def filter_passes)

lemma parse_predicate_contains:
  "parse_level_search t = (base, Some f) \<Longrightarrow> f c \<Longrightarrow> str_in base (lower (name_or c))"
  by (auto simp: parse_level_search_def level_filter_def Let_def
      split: option.splits prod.splits if_splits)

lemma fuzzy_pick_qualifier_none:
  assumes "NAME_INDEX st = build_name_index (CARDS st)" and "\<forall>c\<in>set (CARDS st). \<not> f c"
  shows "fuzzy_pick st sc bn (Some f) = None"
proof -
  have "filter f (case map_of (NAME_INDEX st) k of None \<Rightarrow> [] | Some vs \<Rightarrow> vs) = []" for k
  proof (cases "map_of (NAME_INDEX st) k")
    case None
    then show ?thesis by simp
  next
    case (Some vs)
    then have "set vs \<subseteq> set (CARDS st)"
      using build_name_index_lookup [of "CARDS st" k vs] assms(1) by auto
    then show ?thesis using Some assms(2) by (auto simp: filter_empty_conv)
  qed
  then show ?thesis
    by (simp add: fuzzy_pick_def Let_def split: option.splits)
qed

lemma join_length:
  "ps \<noteq> [] \<Longrightarrow> length (join [c] ps) + 1 = sum_list (map cost ps)"
  by (induction "[c]" ps rule: join.induct) (auto simp: cost_def)


lemma pack_buffer: "buf \<noteq> [] \<Longrightarrow> length (pack chunks buf count ls) \<ge> length chunks + 1"
proof (induction ls arbitrary: chunks buf count)
  case Nil
  then show ?case by simp
next
  case (Cons l ls)
  show ?case
    using Cons.IH [of "[l]" "chunks @ [join [newline] buf]" "length l + 1"]
      Cons.IH [of "buf @ [l]" chunks "count + length l + 1"]
    by simp
qed

lemma pack_splits:
  "count \<le> 1500 \<Longrightarrow> count + sum_list (map cost ls) > 1500 \<Longrightarrow>
   length (pack chunks buf count ls) \<ge> length chunks + 2"
proof (induction ls arbitrary: chunks buf count)
  case Nil
  then show ?case by simp
next
  case (Cons l ls)
  show ?case
  proof (cases "count + length l + 1 > 1500")
    case True
    then show ?thesis
      using pack_buffer [of "[l]" "chunks @ [join [newline] buf]" "length l + 1" ls] by simp
  next
    case False
    then show ?thesis
      using Cons.IH [of "count + length l + 1" chunks "buf @ [l]"] Cons.prems
      by (simp add: cost_def)
  qed
qed



lemma paginate_small:
  "length (join [newline] parts) \<le> 3800 \<Longrightarrow>
   paginate category parts
   = [\<lparr>title = category @ ''s'', description = join [newline] parts, embed_url = None\<rparr>]"
  by (simp add: paginate_def)

lemma paginate_large:
  "length (join [newline] parts) > 3800 \<Longrightarrow>
   paginate category parts
   = map (chunk_embed category (length (pack [] [] 0 parts)))
       (zip [1 ..< Suc (length (pack [] [] 0 parts))] (pack [] [] 0 parts))"
  by (simp add: paginate_def Let_def)

lemma paginate_large_props:
  assumes "length (join [newline] parts) > 3800"
  shows "length (paginate category parts) = length (pack [] [] 0 parts)"
    and "map description (paginate category parts) = pack [] [] 0 parts"
    and "length (paginate category parts) \<ge> 2"
    and "i < length (paginate category parts) \<Longrightarrow>
         title (paginate category parts ! i)
         = category @ ''s ['' @ str_nat (Suc i) @ ''/'' @ str_nat (length (paginate category parts)) @ '']''"
proof -
  let ?ch = "pack [] [] 0 parts"
  note p = paginate_large [OF assms, of category]
  show l: "length (paginate category parts) = length ?ch" by (simp add: p del: upt_Suc)
  have "map (description \<circ> chunk_embed category (length ?ch)) (zip [1 ..< Suc (length ?ch)] ?ch)
      = map snd (zip [1 ..< Suc (length ?ch)] ?ch)"
    by (intro map_cong) (auto simp: chunk_embed_def)
  then show "map description (paginate category parts) = ?ch" by (simp add: p del: upt_Suc)
  have ne: "parts \<noteq> []" using assms by auto
  have "sum_list (map cost parts) > 1500"
    using join_length [OF ne, of newline] assms by simp
  then have "length ?ch \<ge> 2"
    using pack_splits [of 0 parts "[]" "[]"] by simp
  then show "length (paginate category parts) \<ge> 2" using l by simp
  show "title (paginate category parts ! i)
         = category @ ''s ['' @ str_nat (Suc i) @ ''/'' @ str_nat (length (paginate category parts)) @ '']''"
    if "i < length (paginate category parts)"
  proof -
    have i: "i < length ?ch" using that l by simp
    have "paginate category parts ! i = chunk_embed category (length ?ch) (Suc i, ?ch ! i)"
      unfolding p using i by (simp add: nth_zip del: upt_Suc)
    then show ?thesis by (simp add: chunk_embed_def l)
  qed
qed

lemma paginate_nonempty: "paginate category parts \<noteq> []"
proof (cases "length (join [newline] parts) \<le> 3800")
  case True
  then show ?thesis by (simp add: paginate_small)
next
  case False
  then have "length (paginate category parts) \<ge> 2"
    by (intro paginate_large_props(3)) simp
  then show ?thesis by auto
qed

lemma paginate_title:
  "e \<in> set (paginate category parts) \<Longrightarrow> \<exists>r. title e = category @ ''s'' @ r"
  by (auto simp: paginate_def chunk_embed_def Let_def split: if_splits)

lemma CARDS_refresh_name_index: "CARDS (refresh_name_index st) = CARDS st"
  by (simp add: refresh_name_index_def Let_def)

lemmas deck_eval =
  build_deck_embeds_def header_def category_embeds_def cat_cards_def deck_cards_def
  categories_def parts_of_def paginate_def chunk_embed_def item_def card_line_def heading_def
  slot_key_def slot_label_def mk_deck_card_def Let_def CARDS_refresh_name_index

lemma category_embeds_empty:
  "category_embeds dcards sl category = [] \<longleftrightarrow> cat_cards dcards category = []"
  by (simp add: category_embeds_def Let_def paginate_nonempty)

lemma category_embeds_title:
  "e \<in> set (category_embeds dcards sl category) \<Longrightarrow> \<exists>r. title e = category @ ''s'' @ r"
  using paginate_title [of e category]
  by (auto simp: category_embeds_def Let_def split: if_splits)

lemma asset_parts_same_label:
  "\<forall>c\<in>set g. slot_label c = L \<Longrightarrow>
   asset_parts sl (Some L) (g @ rest) = map (item sl) g @ asset_parts sl (Some L) rest"
  by (induction g) auto

lemma asset_parts_group:
  assumes "g \<noteq> []" and "\<forall>c\<in>set g. slot_label c = slot_label (hd g)"
    and "last_slot \<noteq> Some (slot_label (hd g))"
  shows "asset_parts sl last_slot (g @ rest)
         = heading (slot_label (hd g)) # map (item sl) g
           @ asset_parts sl (Some (slot_label (hd g))) rest"
proof -
  obtain c cs where g: "g = c # cs" using assms(1) by (cases g) auto
  have "\<forall>x\<in>set cs. slot_label x = slot_label c" using assms(2) g by simp
  then have "asset_parts sl (Some (slot_label c)) (cs @ rest)
      = map (item sl) cs @ asset_parts sl (Some (slot_label c)) rest"
    by (rule asset_parts_same_label)
  then show ?thesis using assms(3) g by auto
qed

lemma asset_parts_groups:
  assumes "\<forall>g\<in>set groups. g \<noteq> [] \<and> (\<forall>c\<in>set g. slot_label c = slot_label (hd g))"
    and "distinct_adj (map (\<lambda>g. slot_label (hd g)) groups)"
    and "groups = [] \<or> last_slot \<noteq> Some (slot_label (hd (hd groups)))"
  shows "asset_parts sl last_slot (concat groups)
         = concat (map (\<lambda>g. heading (slot_label (hd g)) # map (item sl) g) groups)"
  using assms
proof (induction groups arbitrary: last_slot)
  case Nil
  show ?case by simp
next
  case (Cons g gs)
  have "g \<noteq> [] \<and> (\<forall>c\<in>set g. slot_label c = slot_label (hd g))"
    using Cons.prems(1) by (rule bspec) simp
  then have g: "g \<noteq> []" "\<forall>c\<in>set g. slot_label c = slot_label (hd g)"
    by blast+
  have l: "last_slot \<noteq> Some (slot_label (hd g))" using Cons.prems(3) by simp
  have n: "gs = [] \<or> Some (slot_label (hd g)) \<noteq> Some (slot_label (hd (hd gs)))"
    using Cons.prems(2) by (cases gs) simp_all
  have d: "distinct_adj (map (\<lambda>g. slot_label (hd g)) gs)"
    using distinct_adj_ConsD [of "slot_label (hd g)" "map (\<lambda>g. slot_label (hd g)) gs"]
      Cons.prems(2) by simp
  have r: "\<forall>g\<in>set gs. g \<noteq> [] \<and> (\<forall>c\<in>set g. slot_label c = slot_label (hd g))"
    using Cons.prems(1) by (blast intro: list.set_intros)
  have "asset_parts sl (Some (slot_label (hd g))) (concat gs)
      = concat (map (\<lambda>g. heading (slot_label (hd g)) # map (item sl) g) gs)"
    using r d n by (rule Cons.IH)
  then show ?case
    using asset_parts_group [OF g l, of sl "concat gs"] by simp
qed


lemma sentinel_follows: "s = [] \<or> hd s < CHR ''z'' \<Longrightarrow> s < ''zzzzzz''"
  by (cases s) auto

lemma cat_cards_filter: "\<exists>P. cat_cards dcards category = filter P dcards"
  by (auto simp: cat_cards_def)

lemma cat_cards_subset: "set (cat_cards dcards category) \<subseteq> set dcards"
  by (auto simp: cat_cards_def)

lemma fuzzy_stage_qualifier_dead:
  assumes "strip q \<noteq> []" and "parse_level_search (strip q) = (base, Some f)"
    and "exacts (CARDS st) (norm_str base) (Some f) = []"
    and "by_name_lowest (CARDS st) base (Some f) = []"
    and "NAME_INDEX st = build_name_index (CARDS st)"
  shows "match_token st sc a q = a"
proof -
  have n: "\<forall>c\<in>set (CARDS st). \<not> f c"
  proof (intro ballI notI)
    fix c assume c: "c \<in> set (CARDS st)" and f: "f c"
    have "str_in base (lower (name_or c))"
      using assms(2) f by (rule parse_predicate_contains)
    then have "cand base (Some f) c" using f by (simp add: cand_def passes_def)
    moreover have "\<forall>c\<in>set (CARDS st). \<not> cand base (Some f) c"
      using assms(4) by (simp add: by_name_lowest_empty)
    ultimately show False using c by blast
  qed
  have "fuzzy_pick st sc (norm_str base) (Some f) = None"
    using assms(5) n by (rule fuzzy_pick_qualifier_none)
  then have "token_picks st sc q = []"
    using token_picks_fuzzy [OF assms(1-4), of sc] by simp
  then show ?thesis by (simp add: match_token_picks)
qed

lemma runs_exist:
  "\<exists>groups. concat groups = xs
     \<and> (\<forall>g\<in>set groups. g \<noteq> [] \<and> (\<forall>c\<in>set g. f c = f (hd g)))
     \<and> distinct_adj (map (\<lambda>g. f (hd g)) groups)"
proof (induction xs)
  case Nil
  have "concat [] = ([] :: 'a list)
     \<and> (\<forall>g\<in>set ([] :: 'a list list). g \<noteq> [] \<and> (\<forall>c\<in>set g. f c = f (hd g)))
     \<and> distinct_adj (map (\<lambda>g. f (hd g)) ([] :: 'a list list))"
    by simp
  then show ?case by (rule exI)
next
  case (Cons x xs)
  then obtain groups where c: "concat groups = xs"
    and r: "\<forall>g\<in>set groups. g \<noteq> [] \<and> (\<forall>c\<in>set g. f c = f (hd g))"
    and d: "distinct_adj (map (\<lambda>g. f (hd g)) groups)"
    by blast
  show ?case
  proof (cases groups)
    case Nil
    have "concat [[x]] = x # xs" using c Nil by simp
    moreover have "\<forall>g\<in>set [[x]]. g \<noteq> [] \<and> (\<forall>c\<in>set g. f c = f (hd g))" by simp
    moreover have "distinct_adj (map (\<lambda>g. f (hd g)) [[x]])" by simp
    ultimately show ?thesis by blast
  next
    case (Cons g gs)
    have g: "g \<noteq> []" and gc: "\<forall>c\<in>set g. f c = f (hd g)"
      and rs: "\<forall>h\<in>set gs. h \<noteq> [] \<and> (\<forall>c\<in>set h. f c = f (hd h))"
      using r unfolding Cons by (blast intro: list.set_intros)+
    have dg: "distinct_adj (f (hd g) # map (\<lambda>g. f (hd g)) gs)"
      using d unfolding Cons by simp
    show ?thesis
    proof (cases "f x = f (hd g)")
      case True
      have 1: "concat ((x # g) # gs) = x # xs" using c unfolding Cons by simp
      have "\<forall>c\<in>set (x # g). f c = f (hd (x # g))"
      proof
        fix c assume "c \<in> set (x # g)"
        then consider "c = x" | "c \<in> set g" by auto
        then show "f c = f (hd (x # g))"
        proof cases
          case 1 then show ?thesis by simp
        next
          case 2
          then have "f c = f (hd g)" using gc by blast
          then show ?thesis using True by simp
        qed
      qed
      then have 2: "\<forall>h\<in>set ((x # g) # gs). h \<noteq> [] \<and> (\<forall>c\<in>set h. f c = f (hd h))"
        using rs by (metis list.distinct(1) set_ConsD)
      have 3: "distinct_adj (map (\<lambda>g. f (hd g)) ((x # g) # gs))"
        using dg True by simp
      from 1 2 3 show ?thesis by blast
    next
      case False
      have 1: "concat ([x] # g # gs) = x # xs" using c unfolding Cons by simp
      have x1: "[x] \<noteq> [] \<and> (\<forall>c\<in>set [x]. f c = f (hd [x]))" by simp
      have 2: "\<forall>h\<in>set ([x] # g # gs). h \<noteq> [] \<and> (\<forall>c\<in>set h. f c = f (hd h))"
        using x1 g gc rs by (metis set_ConsD)
      have 3: "distinct_adj (map (\<lambda>g. f (hd g)) ([x] # g # gs))"
        using dg False by simp
      from 1 2 3 show ?thesis by blast
    qed
  qed
qed

lemma category_title_prefix:
  "cat \<in> set categories \<Longrightarrow> cat' \<in> set categories \<Longrightarrow>
   starts_with (cat @ ''s'') (cat' @ ''s'' @ r) \<longleftrightarrow> cat = cat'"
  by (auto simp: categories_def)

lemma section_present:
  assumes "cat \<in> set categories"
  shows "(\<exists>e\<in>set (tl (build_deck_embeds st d)). starts_with (cat @ ''s'') (title e))
         \<longleftrightarrow> cat_cards (deck_cards (CARDS st) (slots d)) cat \<noteq> []"
proof
  let ?dc = "deck_cards (CARDS st) (slots d)"
  assume "\<exists>e\<in>set (tl (build_deck_embeds st d)). starts_with (cat @ ''s'') (title e)"
  then obtain e cat' where c: "cat' \<in> set categories"
      and e: "e \<in> set (category_embeds ?dc (slots d) cat')"
      and s: "starts_with (cat @ ''s'') (title e)"
    by (auto simp: build_deck_embeds_def)
  obtain r where "title e = cat' @ ''s'' @ r"
    using category_embeds_title [OF e] by blast
  then have "cat = cat'" using s category_title_prefix [OF assms c] by simp
  then have "category_embeds ?dc (slots d) cat \<noteq> []" using e by auto
  then show "cat_cards ?dc cat \<noteq> []" by (simp add: category_embeds_empty)
next
  let ?dc = "deck_cards (CARDS st) (slots d)"
  assume "cat_cards ?dc cat \<noteq> []"
  then have "category_embeds ?dc (slots d) cat \<noteq> []" by (simp add: category_embeds_empty)
  then obtain e where e: "e \<in> set (category_embeds ?dc (slots d) cat)"
    by (cases "category_embeds ?dc (slots d) cat") auto
  obtain r where "title e = cat @ ''s'' @ r"
    using category_embeds_title [OF e] by blast
  then have "starts_with (cat @ ''s'') (title e)"
    unfolding starts_with_iff by (metis append.assoc)
  moreover have "e \<in> set (tl (build_deck_embeds st d))"
    using e assms by (auto simp: build_deck_embeds_def)
  ultimately show "\<exists>e\<in>set (tl (build_deck_embeds st d)). starts_with (cat @ ''s'') (title e)"
    by blast
qed

lemma cat_cards_member:
  "cat \<in> set categories \<Longrightarrow>
   c \<in> set (cat_cards dcards cat) \<longleftrightarrow>
     c \<in> set dcards
     \<and> (if permanent c = Some True then cat = ''Permanent''
        else cat \<noteq> ''Permanent'' \<and> type_code c = Some (lower cat))"
  by (auto simp: cat_cards_def categories_def string_eval split: option.splits)

section \<open>C5: one deduplicated result in first-occurrence order\<close>

text \<open>
  Claim C5. In the result of \<open>find_matching_cards\<close> every card code occurs at most once
  (and every record in it has a non-empty code). Tokens are processed from left to right:
  the result for a token list followed by further tokens is the result for the first
  list, unchanged and in place, followed by those records of the later tokens whose code
  has not occurred yet, so a card matched again later keeps the position of its first
  match and the later match adds nothing.
\<close>

theorem resolve_dedup_first_occurrence:
  "distinct (map code (find_matching_cards st sc qs))
   \<and> (\<forall>c\<in>set (find_matching_cards st sc qs). \<exists>k. code c = Some k \<and> k \<noteq> [])
   \<and> find_matching_cards st sc (qs @ qs') =
       find_matching_cards st sc qs
         @ filter (\<lambda>c. code c \<notin> code ` set (find_matching_cards st sc qs))
             (find_matching_cards st sc qs')"
proof -
  let ?R = "find_matching_cards st sc"
  have d: "distinct (map code (?R qs))"
    by (simp add: find_matching_cards_unseen unseen_distinct)
  have v: "\<forall>c\<in>set (?R qs). \<exists>k. code c = Some k \<and> k \<noteq> []"
    using unseen_set by (fastforce simp: find_matching_cards_unseen)
  then have img: "Some ` codes_of (?R qs) = code ` set (?R qs)"
    by (intro codes_of_image) auto
  have "?R (qs @ qs') = ?R qs @ unseen ({} \<union> codes_of (?R qs)) (concat (map (token_picks st sc) qs'))"
    by (simp add: find_matching_cards_unseen unseen_append)
  also have "unseen ({} \<union> codes_of (?R qs)) (concat (map (token_picks st sc) qs'))
      = filter (\<lambda>c. code c \<notin> Some ` codes_of (?R qs)) (?R qs')"
    unfolding unseen_union by (simp add: find_matching_cards_unseen)
  finally show ?thesis using d v img by simp
qed

text \<open>
  Shrivelling, then Lucky!, then Lucky! again and the level-3 Shrivelling: the second
  Lucky! adds nothing, the new print goes to the end.
\<close>

theorem resolve_dedup_first_occurrence_witness:
  "find_matching_cards example_store token_set_ratio
     ([''Shrivelling'', ''Lucky!''] @ [''lucky'', ''Shrivelling (3)''])
   = [mk_card ''01060'' ''Shrivelling'' 0, mk_card ''01080'' ''Lucky!'' 0,
      mk_card ''02306'' ''Shrivelling'' 3]"
proof -
  have a: "find_matching_cards example_store token_set_ratio [''Shrivelling'', ''Lucky!'']
      = [mk_card ''01060'' ''Shrivelling'' 0, mk_card ''01080'' ''Lucky!'' 0]"
    by (simp add: resolve_eval string_eval)
  have b: "find_matching_cards example_store token_set_ratio [''lucky'', ''Shrivelling (3)'']
      = [mk_card ''01080'' ''Lucky!'' 0, mk_card ''02306'' ''Shrivelling'' 3]"
    by (simp add: resolve_eval string_eval)
  show ?thesis
    using resolve_dedup_first_occurrence
      [of example_store token_set_ratio "[''Shrivelling'', ''Lucky!'']"
          "[''lucky'', ''Shrivelling (3)'']"]
    unfolding a b by (simp add: mk_card_def)
qed

section \<open>C9: a failed reload keeps the snapshot\<close>

text \<open>
  Claim C9. When the download fails, \<open>load_cards\<close> hands the error on and leaves the
  three globals as they were: the record list, the name index and the key list are the
  old ones, and resolution against the store gives what it gave before.
\<close>

theorem load_cards_failure_keeps_snapshot:
  "load_cards (Inl FetchError) st = (Inl FetchError, st)
   \<and> CARDS (snd (load_cards (Inl FetchError) st)) = CARDS st
   \<and> NAME_INDEX (snd (load_cards (Inl FetchError) st)) = NAME_INDEX st
   \<and> NAME_KEYS (snd (load_cards (Inl FetchError) st)) = NAME_KEYS st
   \<and> find_matching_cards (snd (load_cards (Inl FetchError) st)) sc qs
       = find_matching_cards st sc qs"
  by (simp add: load_cards_def)

theorem load_cards_failure_keeps_snapshot_witness:
  "snd (load_cards (Inl FetchError) example_store) = example_store
   \<and> find_matching_cards (snd (load_cards (Inl FetchError) example_store)) token_set_ratio
        [''shriveling'']
      = [mk_card ''01060'' ''Shrivelling'' 0]"
proof -
  have "find_matching_cards example_store token_set_ratio [''shriveling'']
      = [mk_card ''01060'' ''Shrivelling'' 0]"
    by (simp add: resolve_eval string_eval)
  then show ?thesis
    using load_cards_failure_keeps_snapshot [of example_store token_set_ratio "[''shriveling'']"]
    by simp
qed

section \<open>C1: the exact stage comes first\<close>

text \<open>
  Claim C1. Take a token that is not blank, with parsed base \<open>base\<close> and qualifier
  predicate \<open>level_fn\<close> (if any), such that some catalog record has the normalised name
  of \<open>base\<close> and passes the predicate. Then the token's picks come from the exact
  candidates alone: without a qualifier the one pick is the first candidate, in catalog
  order, of least xp; with a qualifier the picks are all the candidates. The round hands
  exactly these picks to the dedup loop, whatever the scorer, the name index and the key
  list are (the fuzzy stage is not reached), and when the picks have distinct non-empty
  codes, resolving the token alone returns exactly the picks.
\<close>

theorem exact_stage_priority:
  assumes "strip q \<noteq> []"
    and "parse_level_search (strip q) = (base, level_fn)"
    and "\<exists>c\<in>set (CARDS st). norm_str (name_or c) = norm_str base \<and> passes level_fn c"
  shows "\<exists>picks.
           (case level_fn of
              None \<Rightarrow> \<exists>m. picks = [m] \<and> first_min xp_or (exacts (CARDS st) (norm_str base) None) m
            | Some f \<Rightarrow> picks = exacts (CARDS st) (norm_str base) (Some f))
         \<and> (\<forall>sc a. match_token st sc a q = add_matches a picks)
         \<and> (\<forall>sc a idx keys.
               match_token (st\<lparr>NAME_INDEX := idx, NAME_KEYS := keys\<rparr>) sc a q = add_matches a picks)
         \<and> (distinct (map code picks) \<and> (\<forall>c\<in>set picks. \<exists>k. code c = Some k \<and> k \<noteq> [])
              \<longrightarrow> (\<forall>sc. find_matching_cards st sc [q] = picks))"
proof -
  let ?ex = "exacts (CARDS st) (norm_str base) level_fn"
  have ne: "?ex \<noteq> []"
    using assms(3) by (auto simp: exacts_def filter_empty_conv)
  then obtain e es where e: "?ex = e # es" by (cases ?ex) auto
  define picks where "picks = (case level_fn of None \<Rightarrow> [py_min xp_or e es] | Some f \<Rightarrow> e # es)"
  have tp: "token_picks st sc q = picks" for sc
    unfolding picks_def by (rule token_picks_exact [OF assms(1,2) e])
  have 1: "case level_fn of
              None \<Rightarrow> \<exists>m. picks = [m] \<and> first_min xp_or (exacts (CARDS st) (norm_str base) None) m
            | Some f \<Rightarrow> picks = exacts (CARDS st) (norm_str base) (Some f)"
  proof (cases level_fn)
    case None
    then show ?thesis using e py_min_first_min [of xp_or e es] by (simp add: picks_def)
  next
    case (Some f)
    then show ?thesis using e by (simp add: picks_def)
  qed
  have 2: "\<forall>sc a. match_token st sc a q = add_matches a picks"
    by (simp add: match_token_picks tp)
  have 3: "\<forall>sc a idx keys.
      match_token (st\<lparr>NAME_INDEX := idx, NAME_KEYS := keys\<rparr>) sc a q = add_matches a picks"
    using token_picks_index_free [OF assms(1,2) ne] tp by (simp add: match_token_picks)
  have 4: "distinct (map code picks) \<and> (\<forall>c\<in>set picks. \<exists>k. code c = Some k \<and> k \<noteq> [])
              \<longrightarrow> (\<forall>sc. find_matching_cards st sc [q] = picks)"
  proof (intro impI allI)
    fix sc
    assume "distinct (map code picks) \<and> (\<forall>c\<in>set picks. \<exists>k. code c = Some k \<and> k \<noteq> [])"
    then have "unseen {} picks = picks" by (intro unseen_all) auto
    then show "find_matching_cards st sc [q] = picks"
      by (simp add: find_matching_cards_single tp)
  qed
  from 1 2 3 4 show ?thesis by blast
qed

text \<open>
  The catalog holds Lucky Cigarette Case, Lucky! at level 2 and Lucky! at level 0, in this
  order. The token \<open>lucky\<close> is contained in all three names, but only the exact
  candidates count, and the level-0 print wins although it comes last.
\<close>

theorem exact_stage_priority_witness:
  "find_matching_cards lucky_store token_set_ratio [''lucky''] = [mk_card ''01080'' ''Lucky!'' 0]"
proof -
  have s: "strip ''lucky'' \<noteq> []" by (simp add: string_eval)
  have p: "parse_level_search (strip ''lucky'') = (''lucky'', None)"
    by (simp add: string_eval parse_level_search_def)
  have ex: "exacts (CARDS lucky_store) (norm_str ''lucky'') None
      = [mk_card ''04232'' ''Lucky!'' 2, mk_card ''01080'' ''Lucky!'' 0]"
    by (simp add: lucky_store_def resolve_eval string_eval)
  have c: "\<exists>c\<in>set (CARDS lucky_store). norm_str (name_or c) = norm_str ''lucky'' \<and> passes None c"
  proof -
    have "mk_card ''01080'' ''Lucky!'' 0 \<in> set (exacts (CARDS lucky_store) (norm_str ''lucky'') None)"
      unfolding ex by simp
    then show ?thesis unfolding exacts_def by auto
  qed
  obtain picks m where m: "picks = [m]"
      "first_min xp_or (exacts (CARDS lucky_store) (norm_str ''lucky'') None) m"
    and r: "distinct (map code picks) \<and> (\<forall>c\<in>set picks. \<exists>k. code c = Some k \<and> k \<noteq> [])
              \<longrightarrow> (\<forall>sc. find_matching_cards lucky_store sc [''lucky''] = picks)"
    using exact_stage_priority [OF s p c] unfolding option.case by blast
  have "m = mk_card ''01080'' ''Lucky!'' 0"
    using m(2) unfolding ex by (rule first_min_two) (simp add: mk_card_def xp_or_def)
  then show ?thesis using r m(1) by (simp add: mk_card_def)
qed

section \<open>C2: a parenthetical that is no level\<close>

text \<open>
  Claim C2 says that a parenthetical which is neither \<open>u\<close> nor a number is inert: the base
  stays the whole trimmed token and no predicate is built. The code does otherwise. For
  the token \<open>Foo (bar)\<close> the base is \<open>foo\<close>, cut before the parenthesis, and a predicate
  is returned; since a predicate is present the exact stage keeps both prints of Foo,
  where the plain token \<open>Foo\<close> keeps the level-0 print only.
\<close>

theorem inert_parenthetical_counterexample:
  "fst (parse_level_search ''Foo (bar)'') = ''foo''
   \<and> fst (parse_level_search ''Foo (bar)'') \<noteq> lower (strip ''Foo (bar)'')
   \<and> snd (parse_level_search ''Foo (bar)'') \<noteq> None
   \<and> find_matching_cards foo_store token_set_ratio [''Foo (bar)'']
       = [mk_card ''1'' ''Foo'' 0, mk_card ''2'' ''Foo'' 2]
   \<and> find_matching_cards foo_store token_set_ratio [''Foo''] = [mk_card ''1'' ''Foo'' 0]"
  by (simp add: foo_store_def resolve_eval string_eval)

text \<open>
  Claim C2 as amended. Let the trimmed token be \<open>B(X)\<close>, where \<open>B\<close> has no opening
  parenthesis and \<open>X\<close> is not empty, has no newline and, trimmed, is neither \<open>u\<close>/\<open>U\<close>
  nor an integer. Then the base is \<open>B\<close> trimmed and lower-cased (the parenthetical is cut
  off), and the predicate returned puts no condition on the level: it holds exactly for
  the records whose name contains the base, case ignored.
\<close>

theorem non_level_parenthetical:
  assumes "strip q = B @ ''('' @ X @ '')''" and "CHR ''('' \<notin> set B"
    and "X \<noteq> []" and "newline \<notin> set X"
    and "lower (strip X) \<noteq> ''u''" and "py_int (strip X) = None"
  shows "\<exists>f. parse_level_search (strip q) = (lower (strip B), Some f)
           \<and> (\<forall>c. f c \<longleftrightarrow> (\<exists>ps u ss. name_or c = ps @ u @ ss \<and> lower u = lower (strip B)))"
proof -
  let ?f = "level_filter (strip X) (lower (strip B))"
  have "parse_level_search (strip q) = (lower (strip B), Some ?f)"
    by (rule parse_level_search_paren [OF assms(1-4)])
  moreover have "?f c \<longleftrightarrow> (\<exists>ps u ss. name_or c = ps @ u @ ss \<and> lower u = lower (strip B))" for c
    using assms(5,6) by (simp add: level_filter_def str_in_lower_iff)
  ultimately show ?thesis by blast
qed

theorem non_level_parenthetical_witness:
  "\<exists>f. parse_level_search (strip ''Foo (bar)'') = (''foo'', Some f)
        \<and> f (mk_card ''2'' ''Foo'' 2) \<and> \<not> f (mk_card ''3'' ''Bar'' 0)"
proof -
  have s: "strip ''Foo (bar)'' = ''Foo '' @ ''('' @ ''bar'' @ '')''" by (simp add: string_eval)
  have b: "CHR ''('' \<notin> set ''Foo ''" by simp
  have x: "''bar'' \<noteq> []" "newline \<notin> set ''bar''" "lower (strip ''bar'') \<noteq> ''u''"
      "py_int (strip ''bar'') = None"
    by (simp_all add: string_eval)
  obtain f where f: "parse_level_search (strip ''Foo (bar)'') = (lower (strip ''Foo ''), Some f)"
    and i: "\<And>c. f c \<longleftrightarrow> (\<exists>ps u ss. name_or c = ps @ u @ ss \<and> lower u = lower (strip ''Foo ''))"
    using non_level_parenthetical [OF s b x] by blast
  have l: "lower (strip ''Foo '') = ''foo''" by (simp add: string_eval)
  have "f (mk_card ''2'' ''Foo'' 2)"
    unfolding i str_in_lower_iff [symmetric] by (simp add: string_eval mk_card_def name_or_def)
  moreover have "\<not> f (mk_card ''3'' ''Bar'' 0)"
    unfolding i str_in_lower_iff [symmetric] by (simp add: string_eval mk_card_def name_or_def)
  ultimately show ?thesis using f l by auto
qed

section \<open>C4: the level predicate\<close>

text \<open>
  Claim C4. Let the trimmed token be \<open>B(X)\<close>, where \<open>B\<close> has no opening parenthesis and
  \<open>X\<close> is not empty and has no newline; the base is \<open>B\<close> trimmed and lower-cased. If \<open>X\<close>
  is \<open>u\<close> or \<open>U\<close>, the predicate holds for a record exactly when its xp (0 when absent) is
  above 0 and its name contains the base, case ignored; if \<open>X\<close> reads as the integer \<open>n\<close>,
  exactly when its xp is \<open>n\<close> and its name contains the base. Consequently, in a catalog
  whose records are all prints of \<open>Name\<close> at the levels 0, 2 and 3, each level present,
  with distinct non-empty codes: \<open>Name (2)\<close> returns the level-2 prints only,
  \<open>Name (u)\<close> the prints of levels 2 and 3 in catalog order, and \<open>Name\<close> the first
  level-0 print only.
\<close>

theorem level_filter_correct:
  "(strip q = B @ ''('' @ X @ '')'' \<and> CHR ''('' \<notin> set B \<and> X \<noteq> [] \<and> newline \<notin> set X \<longrightarrow>
      (\<exists>f. parse_level_search (strip q) = (lower (strip B), Some f)
         \<and> (lower (strip X) = ''u'' \<longrightarrow>
              (\<forall>c. f c \<longleftrightarrow> xp_or c > 0
                       \<and> (\<exists>ps u ss. name_or c = ps @ u @ ss \<and> lower u = lower (strip B))))
         \<and> (\<forall>n. py_int (strip X) = Some n \<longrightarrow>
              (\<forall>c. f c \<longleftrightarrow> xp_or c = n
                       \<and> (\<exists>ps u ss. name_or c = ps @ u @ ss \<and> lower u = lower (strip B))))))
   \<and> ((\<forall>c\<in>set (CARDS st). name c = Some ''Name'' \<and> xp_or c \<in> {0, 2, 3})
        \<and> distinct (map code (CARDS st))
        \<and> (\<forall>c\<in>set (CARDS st). \<exists>k. code c = Some k \<and> k \<noteq> [])
        \<and> (\<exists>c\<in>set (CARDS st). xp_or c = 0) \<and> (\<exists>c\<in>set (CARDS st). xp_or c = 2)
        \<and> (\<exists>c\<in>set (CARDS st). xp_or c = 3) \<longrightarrow>
          find_matching_cards st sc [''Name (2)''] = filter (\<lambda>c. xp_or c = 2) (CARDS st)
        \<and> find_matching_cards st sc [''Name (u)''] = filter (\<lambda>c. xp_or c \<noteq> 0) (CARDS st)
        \<and> find_matching_cards st sc [''Name''] = [hd (filter (\<lambda>c. xp_or c = 0) (CARDS st))])"
proof (intro conjI impI)
  assume a: "strip q = B @ ''('' @ X @ '')'' \<and> CHR ''('' \<notin> set B \<and> X \<noteq> [] \<and> newline \<notin> set X"
  let ?f = "level_filter (strip X) (lower (strip B))"
  have p: "parse_level_search (strip q) = (lower (strip B), Some ?f)"
    using a by (intro parse_level_search_paren) auto
  have u: "lower (strip X) = ''u'' \<longrightarrow>
      (\<forall>c. ?f c \<longleftrightarrow> xp_or c > 0
               \<and> (\<exists>ps u ss. name_or c = ps @ u @ ss \<and> lower u = lower (strip B)))"
    by (auto simp: level_filter_def str_in_lower_iff)
  have n: "\<forall>n. py_int (strip X) = Some n \<longrightarrow>
      (\<forall>c. ?f c \<longleftrightarrow> xp_or c = n
               \<and> (\<exists>ps u ss. name_or c = ps @ u @ ss \<and> lower u = lower (strip B)))"
  proof (intro allI impI)
    fix n c
    assume i: "py_int (strip X) = Some n"
    then have "lower (strip X) \<noteq> ''u''" using py_int_u [of "strip X"] by auto
    then show "?f c \<longleftrightarrow> xp_or c = n
               \<and> (\<exists>ps u ss. name_or c = ps @ u @ ss \<and> lower u = lower (strip B))"
      using i by (auto simp: level_filter_def str_in_lower_iff)
  qed
  from p u n show "\<exists>f. parse_level_search (strip q) = (lower (strip B), Some f)
         \<and> (lower (strip X) = ''u'' \<longrightarrow>
              (\<forall>c. f c \<longleftrightarrow> xp_or c > 0
                       \<and> (\<exists>ps u ss. name_or c = ps @ u @ ss \<and> lower u = lower (strip B))))
         \<and> (\<forall>n. py_int (strip X) = Some n \<longrightarrow>
              (\<forall>c. f c \<longleftrightarrow> xp_or c = n
                       \<and> (\<exists>ps u ss. name_or c = ps @ u @ ss \<and> lower u = lower (strip B))))"
    by blast
next
  assume h: "(\<forall>c\<in>set (CARDS st). name c = Some ''Name'' \<and> xp_or c \<in> {0, 2, 3})
        \<and> distinct (map code (CARDS st))
        \<and> (\<forall>c\<in>set (CARDS st). \<exists>k. code c = Some k \<and> k \<noteq> [])
        \<and> (\<exists>c\<in>set (CARDS st). xp_or c = 0) \<and> (\<exists>c\<in>set (CARDS st). xp_or c = 2)
        \<and> (\<exists>c\<in>set (CARDS st). xp_or c = 3)"
  let ?cs = "CARDS st"
  have nm: "\<forall>c\<in>set ?cs. norm_str (name_or c) = norm_str ''name''"
    using h by (simp add: name_or_def string_eval)
  have d: "distinct (map code (filter P ?cs))" for P
    using h by (simp add: distinct_map_filter)
  have v: "\<forall>c\<in>set (filter P ?cs). \<exists>k. code c = Some k \<and> k \<noteq> []" for P
    using h by simp
  have s2: "strip ''Name (2)'' \<noteq> []" and su: "strip ''Name (u)'' \<noteq> []"
    and sn: "strip ''Name'' \<noteq> []"
    by (simp_all add: string_eval)
  have p2: "parse_level_search (strip ''Name (2)'') = (''name'', Some (level_filter ''2'' ''name''))"
    by (simp add: string_eval parse_level_search_def Let_def)
  have pu: "parse_level_search (strip ''Name (u)'') = (''name'', Some (level_filter ''u'' ''name''))"
    by (simp add: string_eval parse_level_search_def Let_def)
  have pn: "parse_level_search (strip ''Name'') = (''name'', None)"
    by (simp add: string_eval parse_level_search_def Let_def)
  have l2: "\<forall>c\<in>set ?cs. level_filter ''2'' ''name'' c = (xp_or c = 2)"
    using h by (simp add: level_filter_def name_or_def string_eval)
  have lu: "\<forall>c\<in>set ?cs. level_filter ''u'' ''name'' c = (xp_or c \<noteq> 0)"
    using h by (auto simp add: level_filter_def name_or_def string_eval)
  have e2: "exacts ?cs (norm_str ''name'') (Some (level_filter ''2'' ''name''))
      = filter (\<lambda>c. xp_or c = 2) ?cs"
    by (rule exacts_same_name [OF nm l2])
  have eu: "exacts ?cs (norm_str ''name'') (Some (level_filter ''u'' ''name''))
      = filter (\<lambda>c. xp_or c \<noteq> 0) ?cs"
    by (rule exacts_same_name [OF nm lu])
  have n2: "filter (\<lambda>c. xp_or c = 2) ?cs \<noteq> []"
    using h by (auto simp: filter_empty_conv)
  have nu: "filter (\<lambda>c. xp_or c \<noteq> 0) ?cs \<noteq> []"
  proof -
    obtain c where "c \<in> set ?cs" "xp_or c = 2" using h by auto
    then have "c \<in> set (filter (\<lambda>c. xp_or c \<noteq> 0) ?cs)" by simp
    then show ?thesis by (metis empty_iff empty_set)
  qed
  show "find_matching_cards st sc [''Name (2)''] = filter (\<lambda>c. xp_or c = 2) ?cs"
    by (rule find_single_exact_qualifier [OF s2 p2 e2 n2 d v])
  show "find_matching_cards st sc [''Name (u)''] = filter (\<lambda>c. xp_or c \<noteq> 0) ?cs"
    by (rule find_single_exact_qualifier [OF su pu eu nu d v])
  have en: "exacts ?cs (norm_str ''name'') None = ?cs"
    using nm by (simp add: exacts_def passes_def)
  obtain e es where e: "?cs = e # es" using h by (cases ?cs) auto
  have tp: "token_picks st sc ''Name'' = [py_min xp_or e es]"
    using token_picks_exact [OF sn pn, of st e es sc] en e by simp
  have fm: "first_min xp_or ?cs (py_min xp_or e es)"
    unfolding e by (rule py_min_first_min)
  have "\<forall>c\<in>set ?cs. 0 \<le> xp_or c" using h by auto
  then have hd: "hd (filter (\<lambda>c. xp_or c = 0) ?cs) = py_min xp_or e es"
    using h by (intro first_min_hd_filter [OF fm]) auto
  have "py_min xp_or e es \<in> set ?cs" using fm by (rule first_min_mem)
  then have "unseen {} [py_min xp_or e es] = [py_min xp_or e es]"
    using h by (intro unseen_all) auto
  then show "find_matching_cards st sc [''Name''] = [hd (filter (\<lambda>c. xp_or c = 0) ?cs)]"
    by (simp add: find_matching_cards_single tp hd)
qed

text \<open>The catalog holds the prints of Name at levels 3, 0 and 2, in this order.\<close>

theorem level_filter_correct_witness:
  "find_matching_cards name_store token_set_ratio [''Name (2)''] = [mk_card ''02'' ''Name'' 2]
   \<and> find_matching_cards name_store token_set_ratio [''Name (u)'']
       = [mk_card ''03'' ''Name'' 3, mk_card ''02'' ''Name'' 2]
   \<and> find_matching_cards name_store token_set_ratio [''Name''] = [mk_card ''00'' ''Name'' 0]
   \<and> (\<exists>f. parse_level_search (strip ''Name (2)'') = (''name'', Some f)
          \<and> f (mk_card ''02'' ''Name'' 2) \<and> \<not> f (mk_card ''03'' ''Name'' 3))"
proof -
  have c: "CARDS name_store
      = [mk_card ''03'' ''Name'' 3, mk_card ''00'' ''Name'' 0, mk_card ''02'' ''Name'' 2]"
    by (simp add: name_store_def refresh_name_index_def Let_def)
  have h: "(\<forall>c\<in>set (CARDS name_store). name c = Some ''Name'' \<and> xp_or c \<in> {0, 2, 3})
        \<and> distinct (map code (CARDS name_store))
        \<and> (\<forall>c\<in>set (CARDS name_store). \<exists>k. code c = Some k \<and> k \<noteq> [])
        \<and> (\<exists>c\<in>set (CARDS name_store). xp_or c = 0) \<and> (\<exists>c\<in>set (CARDS name_store). xp_or c = 2)
        \<and> (\<exists>c\<in>set (CARDS name_store). xp_or c = 3)"
    unfolding c by (simp add: mk_card_def xp_or_def)
  have a: "strip ''Name (2)'' = ''Name '' @ ''('' @ ''2'' @ '')'' \<and> CHR ''('' \<notin> set ''Name ''
      \<and> ''2'' \<noteq> [] \<and> newline \<notin> set ''2''"
    by (simp add: string_eval)
  note t = level_filter_correct [of "''Name (2)''" "''Name ''" "''2''" name_store token_set_ratio]
  have r: "find_matching_cards name_store token_set_ratio [''Name (2)'']
              = filter (\<lambda>c. xp_or c = 2) (CARDS name_store)
        \<and> find_matching_cards name_store token_set_ratio [''Name (u)'']
              = filter (\<lambda>c. xp_or c \<noteq> 0) (CARDS name_store)
        \<and> find_matching_cards name_store token_set_ratio [''Name'']
              = [hd (filter (\<lambda>c. xp_or c = 0) (CARDS name_store))]"
    using t h by blast
  obtain f where f: "parse_level_search (strip ''Name (2)'') = (lower (strip ''Name ''), Some f)"
    and i: "\<forall>n. py_int (strip ''2'') = Some n \<longrightarrow>
              (\<forall>c. f c \<longleftrightarrow> xp_or c = n
                 \<and> (\<exists>ps u ss. name_or c = ps @ u @ ss \<and> lower u = lower (strip ''Name '')))"
    using t a by blast
  have "py_int (strip ''2'') = Some 2" by (simp add: string_eval)
  then have i2: "f c \<longleftrightarrow> xp_or c = 2 \<and> str_in (lower (strip ''Name '')) (lower (name_or c))" for c
    using i by (simp add: str_in_lower_iff)
  have "f (mk_card ''02'' ''Name'' 2)" "\<not> f (mk_card ''03'' ''Name'' 3)"
    unfolding i2 by (simp_all add: string_eval mk_card_def name_or_def xp_or_def)
  moreover have "lower (strip ''Name '') = ''name''" by (simp add: string_eval)
  ultimately have "\<exists>f. parse_level_search (strip ''Name (2)'') = (''name'', Some f)
          \<and> f (mk_card ''02'' ''Name'' 2) \<and> \<not> f (mk_card ''03'' ''Name'' 3)"
    using f by auto
  then show ?thesis using r unfolding c by (simp add: mk_card_def xp_or_def)
qed

section \<open>C3: the fuzzy stage\<close>

text \<open>
  Claim C3: when the exact and the substring stage find nothing and the key list is not
  empty, a best score of at least 80 makes the fuzzy stage append one record, the
  least-xp variant of the best key at the requested level if a qualifier was given; the
  docstring of \<open>find_matching_cards\<close> says the same (pick lowest XP, respect level if
  provided). The code does not do this for a token with a qualifier. The catalog holds
  Shrivelling at levels 0 and 3 and Lucky!. For the misspelt token \<open>shriveling (3)\<close>
  the exact and substring stages find nothing, the key list is not empty, the best key
  \<open>shrivelling\<close> scores 2000/21 (above 95) and its variants include the level-3 print,
  yet the result is empty: the predicate that filters the variants also asks for the
  misspelt base inside the name, so no variant passes. The same misspelling without a
  qualifier returns the level-0 print, and the correct spelling with \<open>(3)\<close> returns the
  level-3 print.
\<close>

theorem fuzzy_stage_loses_level_match:
  "exacts (CARDS example_store) (norm_str (fst (parse_level_search (strip ''shriveling (3)''))))
       (snd (parse_level_search (strip ''shriveling (3)''))) = []
   \<and> by_name_lowest (CARDS example_store) (fst (parse_level_search (strip ''shriveling (3)'')))
       (snd (parse_level_search (strip ''shriveling (3)''))) = []
   \<and> NAME_KEYS example_store \<noteq> []
   \<and> extractOne token_set_ratio (norm_str (fst (parse_level_search (strip ''shriveling (3)''))))
       (NAME_KEYS example_store) = Some (''shrivelling'', 2000 / 21)
   \<and> map_of (NAME_INDEX example_store) ''shrivelling''
       = Some [mk_card ''01060'' ''Shrivelling'' 0, mk_card ''02306'' ''Shrivelling'' 3]
   \<and> find_matching_cards example_store token_set_ratio [''shriveling (3)''] = []
   \<and> find_matching_cards example_store token_set_ratio [''shriveling'']
       = [mk_card ''01060'' ''Shrivelling'' 0]
   \<and> find_matching_cards example_store token_set_ratio [''Shrivelling (3)'']
       = [mk_card ''02306'' ''Shrivelling'' 3]"
  by (simp add: resolve_eval string_eval)

subsection \<open>What the fuzzy round does\<close>

text \<open>
  The round of a token that reaches the fuzzy stage. The best key is the first key of
  highest score; below 80 nothing is appended; from 80 on the variants stored under the
  best key are filtered by the predicate, if there is one, and the first remaining
  variant of least xp goes to the dedup step. Without a qualifier and with the index
  built from the catalog a variant always remains. With a qualifier and the index built
  from the catalog none ever does (\<open>fuzzy_stage_qualifier_dead\<close>): the defect above does
  not depend on the scorer or the catalog.
\<close>

lemma fuzzy_round:
  assumes "strip q \<noteq> []" and "parse_level_search (strip q) = (base, level_fn)"
    and "exacts (CARDS st) (norm_str base) level_fn = []"
    and "by_name_lowest (CARDS st) base level_fn = []"
    and "NAME_KEYS st \<noteq> []"
  shows "\<exists>best pre post.
           NAME_KEYS st = pre @ best # post
         \<and> (\<forall>k\<in>set pre. sc (norm_str base) k < sc (norm_str base) best)
         \<and> (\<forall>k\<in>set post. sc (norm_str base) k \<le> sc (norm_str base) best)
         \<and> match_token st sc a q =
             (if sc (norm_str base) best \<ge> 80
              then (case filter (passes level_fn)
                           (case map_of (NAME_INDEX st) best of None \<Rightarrow> [] | Some vs \<Rightarrow> vs) of
                      [] \<Rightarrow> a
                    | v # vs \<Rightarrow> add_match a (py_min xp_or v vs))
              else a)
         \<and> ((\<forall>k\<in>set (NAME_KEYS st). sc (norm_str base) k < 80) \<longrightarrow> match_token st sc a q = a)
         \<and> (level_fn = None \<and> NAME_INDEX st = build_name_index (CARDS st)
              \<and> NAME_KEYS st = map fst (NAME_INDEX st) \<and> sc (norm_str base) best \<ge> 80 \<longrightarrow>
              (\<exists>m. first_min xp_or (filter (\<lambda>c. norm_str (name_or c) = best) (CARDS st)) m
                 \<and> match_token st sc a q = add_match a m))"
proof -
  let ?bn = "norm_str base"
  obtain best pre post where e: "extractOne sc ?bn (NAME_KEYS st) = Some (best, sc ?bn best)"
    and k: "NAME_KEYS st = pre @ best # post"
    and lt: "\<forall>k\<in>set pre. sc ?bn k < sc ?bn best" and le: "\<forall>k\<in>set post. sc ?bn k \<le> sc ?bn best"
    using extractOne_first_best [OF assms(5), of sc ?bn] by blast
  let ?vs = "filter (passes level_fn) (case map_of (NAME_INDEX st) best of None \<Rightarrow> [] | Some vs \<Rightarrow> vs)"
  have fp: "fuzzy_pick st sc ?bn level_fn
      = (if sc ?bn best \<ge> 80
         then (case ?vs of [] \<Rightarrow> None | v # vs \<Rightarrow> Some (py_min xp_or v vs)) else None)"
    by (rule fuzzy_pick_best [OF e assms(5)])
  have mt: "match_token st sc a q =
             (if sc ?bn best \<ge> 80
              then (case ?vs of [] \<Rightarrow> a | v # vs \<Rightarrow> add_match a (py_min xp_or v vs))
              else a)"
    unfolding match_token_picks token_picks_fuzzy [OF assms(1-4)] fp
    by (simp add: add_matches_single split: list.splits)
  have low: "(\<forall>k\<in>set (NAME_KEYS st). sc ?bn k < 80) \<longrightarrow> match_token st sc a q = a"
  proof
    assume "\<forall>k\<in>set (NAME_KEYS st). sc ?bn k < 80"
    then have "sc ?bn best < 80" using k by simp
    then show "match_token st sc a q = a" using mt by simp
  qed
  have cons: "level_fn = None \<and> NAME_INDEX st = build_name_index (CARDS st)
              \<and> NAME_KEYS st = map fst (NAME_INDEX st) \<and> sc ?bn best \<ge> 80 \<longrightarrow>
              (\<exists>m. first_min xp_or (filter (\<lambda>c. norm_str (name_or c) = best) (CARDS st)) m
                 \<and> match_token st sc a q = add_match a m)"
  proof
    assume h: "level_fn = None \<and> NAME_INDEX st = build_name_index (CARDS st)
              \<and> NAME_KEYS st = map fst (NAME_INDEX st) \<and> sc ?bn best \<ge> 80"
    let ?g = "filter (\<lambda>c. nkey c = best) (CARDS st)"
    have "best \<in> set (NAME_KEYS st)" unfolding k by simp
    then have "best \<in> set (map fst (build_name_index (CARDS st)))" using h by metis
    then have l: "map_of (NAME_INDEX st) best = Some ?g"
      using h by (simp add: build_name_index_key)
    then have "?g \<noteq> []" using build_name_index_lookup [of "CARDS st" best ?g] h by simp
    then obtain v vs where g: "?g = v # vs" by (cases ?g) auto
    have "?vs = v # vs" using h l g by (simp add: passes_def)
    then have "match_token st sc a q = add_match a (py_min xp_or v vs)" using mt h by simp
    moreover have "first_min xp_or ?g (py_min xp_or v vs)"
      unfolding g by (rule py_min_first_min)
    ultimately show "\<exists>m. first_min xp_or (filter (\<lambda>c. norm_str (name_or c) = best) (CARDS st)) m
                 \<and> match_token st sc a q = add_match a m"
      unfolding nkey_def by blast
  qed
  from k lt le mt low cons show ?thesis by blast
qed

lemma fuzzy_round_example:
  "match_token example_store token_set_ratio ([], {}) ''shriveling''
   = ([mk_card ''01060'' ''Shrivelling'' 0], {''01060''})"
proof -
  have s: "strip ''shriveling'' \<noteq> []" by (simp add: string_eval)
  have p: "parse_level_search (strip ''shriveling'') = (''shriveling'', None)"
    by (simp add: string_eval parse_level_search_def)
  have e: "exacts (CARDS example_store) (norm_str ''shriveling'') None = []"
    by (simp add: resolve_eval string_eval)
  have b: "by_name_lowest (CARDS example_store) ''shriveling'' None = []"
    by (simp add: resolve_eval string_eval)
  have ks: "NAME_KEYS example_store = [''shrivelling'', ''lucky'']"
    by (simp add: resolve_eval string_eval)
  then have k: "NAME_KEYS example_store \<noteq> []" by simp
  have sc1: "token_set_ratio (norm_str ''shriveling'') ''shrivelling'' = 2000 / 21"
    and sc2: "token_set_ratio (norm_str ''shriveling'') ''lucky'' = 40 / 3"
    by (simp_all add: token_set_ratio_def string_eval)
  have ix: "map_of (NAME_INDEX example_store) ''shrivelling''
       = Some [mk_card ''01060'' ''Shrivelling'' 0, mk_card ''02306'' ''Shrivelling'' 3]"
    by (simp add: resolve_eval string_eval)
  obtain best pre post where
    1: "NAME_KEYS example_store = pre @ best # post"
    and 2: "\<forall>k\<in>set pre. token_set_ratio (norm_str ''shriveling'') k
              < token_set_ratio (norm_str ''shriveling'') best"
    and 3: "\<forall>k\<in>set post. token_set_ratio (norm_str ''shriveling'') k
              \<le> token_set_ratio (norm_str ''shriveling'') best"
    and 4: "match_token example_store token_set_ratio ([], {}) ''shriveling'' =
             (if token_set_ratio (norm_str ''shriveling'') best \<ge> 80
              then (case filter (passes None)
                           (case map_of (NAME_INDEX example_store) best of None \<Rightarrow> [] | Some vs \<Rightarrow> vs) of
                      [] \<Rightarrow> ([], {})
                    | v # vs \<Rightarrow> add_match ([], {}) (py_min xp_or v vs))
              else ([], {}))"
    using fuzzy_round [OF s p e b k, of token_set_ratio "([], {})"] by blast
  have "best = ''shrivelling''"
  proof (cases pre)
    case Nil
    then show ?thesis using 1 ks by simp
  next
    case (Cons x xs)
    then have "x = ''shrivelling''" using 1 ks by simp
    moreover have "best = ''lucky''" using 1 ks Cons by (cases xs) auto
    ultimately have False using 2 Cons sc1 sc2 by simp
    then show ?thesis ..
  qed
  then show ?thesis
    using 4 sc1 ix by (simp add: passes_def add_match_def mk_card_def xp_or_def)
qed

section \<open>C10: a token that is only a qualifier\<close>

text \<open>
  Claim C10. Let the trimmed token be \<open>(X)\<close> with \<open>X\<close> not empty, without newline, and
  either \<open>u\<close>/\<open>U\<close> or an integer. Then the parsed base is empty and the predicate is the
  level condition alone. If no catalog record has an empty normalised name, the exact
  stage has no candidate, and the picks are those of the substring stage: every record
  passing the predicate is a candidate, the picks have pairwise different normalised
  names, every candidate's normalised name has its pick, and each pick is a candidate of
  least xp among the candidates of its normalised name. The round hands these picks to
  the dedup loop (when no record passes the predicate, this needs the index to be the one
  built from the catalog, and there are no picks).
\<close>

theorem qualifier_only_token:
  assumes "strip q = ''('' @ X @ '')''" and "X \<noteq> []" and "newline \<notin> set X"
    and "lower (strip X) = ''u'' \<or> py_int (strip X) \<noteq> None"
    and "\<forall>c\<in>set (CARDS st). norm_str (name_or c) \<noteq> []"
  shows "\<exists>f picks.
           parse_level_search (strip q) = ([], Some f)
         \<and> (\<forall>c. f c \<longleftrightarrow> (if lower (strip X) = ''u'' then xp_or c > 0
                             else py_int (strip X) = Some (xp_or c)))
         \<and> exacts (CARDS st) (norm_str []) (Some f) = []
         \<and> picks = map snd (by_name_lowest (CARDS st) [] (Some f))
         \<and> ((\<exists>c\<in>set (CARDS st). f c) \<or> NAME_INDEX st = build_name_index (CARDS st)
               \<longrightarrow> match_token st sc a q = add_matches a picks)
         \<and> distinct (map (\<lambda>c. norm_str (name_or c)) picks)
         \<and> (\<forall>c\<in>set (CARDS st). f c \<longrightarrow>
               (\<exists>p\<in>set picks. norm_str (name_or p) = norm_str (name_or c)))
         \<and> (\<forall>p\<in>set picks. p \<in> set (CARDS st) \<and> f p
               \<and> (\<forall>c\<in>set (CARDS st). f c \<and> norm_str (name_or c) = norm_str (name_or p)
                     \<longrightarrow> xp_or p \<le> xp_or c))"
proof -
  let ?f = "level_filter (strip X) []"
  let ?cs = "CARDS st"
  let ?d = "by_name_lowest ?cs [] (Some ?f)"
  have sq: "strip q \<noteq> []" using assms(1) by simp
  have "strip q = [] @ ''('' @ X @ '')''" using assms(1) by simp
  then have "parse_level_search (strip q)
         = (lower (strip []), Some (level_filter (strip X) (lower (strip []))))"
    using assms(2,3) by (intro parse_level_search_paren) auto
  then have p: "parse_level_search (strip q) = ([], Some ?f)"
    by (simp add: strip_def lower_def)
  have f: "?f c \<longleftrightarrow> (if lower (strip X) = ''u'' then xp_or c > 0
                             else py_int (strip X) = Some (xp_or c))" for c
    using assms(4) by (auto simp: level_filter_def)
  have cd: "cand [] (Some ?f) c = ?f c" for c
    by (simp add: cand_def passes_def)
  have ex: "exacts ?cs (norm_str []) (Some ?f) = []"
    using assms(5) by (auto simp: exacts_def filter_empty_conv norm_str_def lower_def)
  have mt: "(\<exists>c\<in>set ?cs. ?f c) \<or> NAME_INDEX st = build_name_index ?cs
               \<longrightarrow> match_token st sc a q = add_matches a (map snd ?d)"
  proof
    assume h: "(\<exists>c\<in>set ?cs. ?f c) \<or> NAME_INDEX st = build_name_index ?cs"
    show "match_token st sc a q = add_matches a (map snd ?d)"
    proof (cases "?d = []")
      case False
      then have "token_picks st sc q = map snd ?d"
        using sq p ex by (simp add: token_picks_def)
      then show ?thesis by (simp add: match_token_picks)
    next
      case True
      then have n: "\<forall>c\<in>set ?cs. \<not> ?f c" by (simp add: by_name_lowest_empty cd)
      then have "NAME_INDEX st = build_name_index ?cs" using h by auto
      then have "fuzzy_pick st sc (norm_str []) (Some ?f) = None"
        using n by (rule fuzzy_pick_qualifier_none)
      then have "token_picks st sc q = []"
        using token_picks_fuzzy [OF sq p ex True, of sc] by simp
      then show ?thesis using True by (simp add: match_token_picks)
    qed
  qed
  have di: "distinct (map (\<lambda>c. norm_str (name_or c)) (map snd ?d))"
  proof -
    have "map (\<lambda>c. norm_str (name_or c)) (map snd ?d) = map fst ?d"
      by (rule by_name_lowest_keys [of ?cs "[]" "Some ?f", unfolded nkey_def [abs_def]])
    moreover have "distinct (map fst ?d)"
      using by_name_lowest_invariant [of ?cs "[]" "Some ?f"] by blast
    ultimately show ?thesis by (simp only:)
  qed
  have cov: "\<forall>c\<in>set ?cs. ?f c \<longrightarrow>
               (\<exists>p\<in>set (map snd ?d). norm_str (name_or p) = norm_str (name_or c))"
    using by_name_lowest_covers [of _ ?cs "[]" "Some ?f"] by (simp add: cd nkey_def)
  have mn: "\<forall>p\<in>set (map snd ?d). p \<in> set ?cs \<and> ?f p
               \<and> (\<forall>c\<in>set ?cs. ?f c \<and> norm_str (name_or c) = norm_str (name_or p)
                     \<longrightarrow> xp_or p \<le> xp_or c)"
  proof
    fix p assume "p \<in> set (map snd ?d)"
    then obtain k where "(k, p) \<in> set ?d" by auto
    from by_name_lowest_pick [OF this]
    show "p \<in> set ?cs \<and> ?f p
               \<and> (\<forall>c\<in>set ?cs. ?f c \<and> norm_str (name_or c) = norm_str (name_or p)
                     \<longrightarrow> xp_or p \<le> xp_or c)"
      by (simp add: cd nkey_def)
  qed
  from p f ex mt di cov mn show ?thesis by blast
qed

text \<open>
  The token \<open>(u)\<close> against the prints of Shrivelling at levels 0 and 3 and Lucky! at level
  0: the one record above level 0 is returned.
\<close>

theorem qualifier_only_token_witness:
  "match_token example_store token_set_ratio ([], {}) ''(u)''
   = ([mk_card ''02306'' ''Shrivelling'' 3], {''02306''})"
proof -
  have s: "strip ''(u)'' = ''('' @ ''u'' @ '')''" by (simp add: string_eval)
  have x: "''u'' \<noteq> []" "newline \<notin> set ''u''"
      "lower (strip ''u'') = ''u'' \<or> py_int (strip ''u'') \<noteq> None"
    by (simp_all add: string_eval)
  have c: "\<forall>c\<in>set (CARDS example_store). norm_str (name_or c) \<noteq> []"
    by (simp add: resolve_eval string_eval)
  obtain f picks where p: "parse_level_search (strip ''(u)'') = ([], Some f)"
    and pk: "picks = map snd (by_name_lowest (CARDS example_store) [] (Some f))"
    and m: "(\<exists>c\<in>set (CARDS example_store). f c)
             \<or> NAME_INDEX example_store = build_name_index (CARDS example_store)
               \<longrightarrow> match_token example_store token_set_ratio ([], {}) ''(u)''
                     = add_matches ([], {}) picks"
    using qualifier_only_token [OF s x c, of token_set_ratio "([], {})"] by blast
  have "parse_level_search (strip ''(u)'') = ([], Some (level_filter ''u'' []))"
    by (simp add: string_eval parse_level_search_def Let_def)
  then have f: "f = level_filter ''u'' []" using p by simp
  have i: "NAME_INDEX example_store = build_name_index (CARDS example_store)"
    by (simp add: example_store_def refresh_name_index_def Let_def)
  have "picks = [mk_card ''02306'' ''Shrivelling'' 3]"
    unfolding pk f by (simp add: resolve_eval string_eval)
  then show ?thesis using m i by (simp add: add_matches_def add_match_def mk_card_def)
qed

section \<open>C6: pagination of a category\<close>




section \<open>C7: categories\<close>

text \<open>
  Claim C7. For each of the six categories, a deck card is among the cards of the
  category exactly when: its permanent flag is true and the category is Permanent; or the
  flag is not true, the category is not Permanent and the card's type code is the
  category's name in lower case. A category yields no embed exactly when it has no
  card. The deck cards are the catalog records whose code is a key of the deck's slots,
  in catalog order. Hence, for each category, the embeds after the header contain one
  whose title begins with the category's plural exactly when some catalog record with its
  code among the slots belongs to the category; and when no catalog record with its code
  among the slots is a skill that is not permanent, no embed after the header has a title
  beginning with \<open>Skills\<close>.
\<close>

theorem category_placement:
  "(\<forall>c\<in>set dcards. \<forall>cat\<in>set categories.
       c \<in> set (cat_cards dcards cat) \<longleftrightarrow>
         (if permanent c = Some True then cat = ''Permanent''
          else cat \<noteq> ''Permanent'' \<and> type_code c = Some (lower cat)))
   \<and> map lower categories
       = [''asset'', ''permanent'', ''event'', ''skill'', ''treachery'', ''enemy'']
   \<and> (\<forall>cat. category_embeds dcards sl cat = [] \<longleftrightarrow> cat_cards dcards cat = [])
   \<and> deck_cards (CARDS st) (slots d)
       = filter (\<lambda>c. slots d (case code c of None \<Rightarrow> [] | Some k \<Rightarrow> k) \<noteq> None) (CARDS st)
   \<and> (\<forall>cat\<in>set categories.
         (\<exists>e\<in>set (tl (build_deck_embeds st d)). starts_with (cat @ ''s'') (title e))
         \<longleftrightarrow> (\<exists>c\<in>set (CARDS st).
                slots d (case code c of None \<Rightarrow> [] | Some k \<Rightarrow> k) \<noteq> None
                \<and> (if permanent c = Some True then cat = ''Permanent''
                   else cat \<noteq> ''Permanent'' \<and> type_code c = Some (lower cat))))
   \<and> ((\<forall>c\<in>set (CARDS st).
          slots d (case code c of None \<Rightarrow> [] | Some k \<Rightarrow> k) \<noteq> None
          \<and> type_code c = Some ''skill'' \<longrightarrow> permanent c = Some True)
        \<longrightarrow> (\<forall>e\<in>set (tl (build_deck_embeds st d)). \<not> starts_with ''Skills'' (title e)))"
proof -
  let ?in = "\<lambda>c. slots d (case code c of None \<Rightarrow> [] | Some k \<Rightarrow> k) \<noteq> None"
  let ?dc = "deck_cards (CARDS st) (slots d)"
  let ?of = "\<lambda>c cat. if permanent c = Some True then cat = ''Permanent''
          else cat \<noteq> ''Permanent'' \<and> type_code c = Some (lower cat)"
  have 1: "\<forall>c\<in>set dcards. \<forall>cat\<in>set categories.
       c \<in> set (cat_cards dcards cat) \<longleftrightarrow> ?of c cat"
    by (simp add: cat_cards_member)
  have 2: "map lower categories
       = [''asset'', ''permanent'', ''event'', ''skill'', ''treachery'', ''enemy'']"
    by (simp add: categories_def string_eval)
  have 3: "\<forall>cat. category_embeds dcards sl cat = [] \<longleftrightarrow> cat_cards dcards cat = []"
    by (simp add: category_embeds_empty)
  have 4: "?dc = filter ?in (CARDS st)" by (simp add: deck_cards_def)
  have sec: "(\<exists>e\<in>set (tl (build_deck_embeds st d)). starts_with (cat @ ''s'') (title e))
         \<longleftrightarrow> (\<exists>c\<in>set (CARDS st). ?in c \<and> ?of c cat)"
    if cat: "cat \<in> set categories" for cat
  proof -
    have "cat_cards ?dc cat \<noteq> [] \<longleftrightarrow> (\<exists>c. c \<in> set (cat_cards ?dc cat))"
      by (cases "cat_cards ?dc cat") auto
    also have "\<dots> \<longleftrightarrow> (\<exists>c. c \<in> set ?dc \<and> ?of c cat)"
      by (simp only: cat_cards_member [OF cat])
    also have "\<dots> \<longleftrightarrow> (\<exists>c\<in>set (CARDS st). ?in c \<and> ?of c cat)"
      unfolding 4 by auto
    finally show ?thesis by (simp only: section_present [OF cat])
  qed
  have 5: "\<forall>cat\<in>set categories.
         (\<exists>e\<in>set (tl (build_deck_embeds st d)). starts_with (cat @ ''s'') (title e))
         \<longleftrightarrow> (\<exists>c\<in>set (CARDS st). ?in c \<and> ?of c cat)"
    using sec by blast
  have 6: "(\<forall>c\<in>set (CARDS st). ?in c \<and> type_code c = Some ''skill'' \<longrightarrow> permanent c = Some True)
        \<longrightarrow> (\<forall>e\<in>set (tl (build_deck_embeds st d)). \<not> starts_with ''Skills'' (title e))"
  proof (intro impI ballI notI)
    fix e
    assume h: "\<forall>c\<in>set (CARDS st). ?in c \<and> type_code c = Some ''skill'' \<longrightarrow> permanent c = Some True"
      and e: "e \<in> set (tl (build_deck_embeds st d))" and s: "starts_with ''Skills'' (title e)"
    have k: "''Skill'' \<in> set categories" by (simp add: categories_def)
    have "\<exists>e\<in>set (tl (build_deck_embeds st d)). starts_with (''Skill'' @ ''s'') (title e)"
      using e s by auto
    then obtain c where c: "c \<in> set (CARDS st)" "?in c" "?of c ''Skill''"
      using sec [OF k] by blast
    have l: "lower ''Skill'' = ''skill''" by (simp add: string_eval)
    show False
    proof (cases "permanent c = Some True")
      case True
      then show False using c(3) by simp
    next
      case False
      then have "type_code c = Some ''skill''" using c(3) l by simp
      then show False using h c(1,2) False by blast
    qed
  qed
  show ?thesis
    apply (intro conjI)
         apply (rule 1)
        apply (rule 2)
       apply (rule 3)
      apply (rule 4)
     apply (rule 5)
    apply (rule 6)
    done
qed

text \<open>
  The catalog holds the skill Guts. A deck with three assets, the permanent asset
  Charisma and an event, and without Guts: the sections are Assets, Permanents and
  Events, and no title begins with Skills. The same deck with Guts added has a Skills
  section.
\<close>

theorem category_placement_witness:
  "map title (build_deck_embeds deck_store example_deck)
     = [''Roland Banks: Test 1.0'', ''Assets'', ''Permanents'', ''Events'']
   \<and> filter (\<lambda>e. starts_with ''Skills'' (title e))
         (tl (build_deck_embeds deck_store example_deck)) = []
   \<and> map type_code (CARDS deck_store)
     = [Some ''asset'', Some ''asset'', Some ''asset'', Some ''event'', Some ''asset'',
        Some ''investigator'', Some ''skill'']
   \<and> map title (build_deck_embeds deck_store skill_deck)
     = [''Roland Banks: Test 1.0'', ''Assets'', ''Permanents'', ''Events'', ''Skills'']"
proof -
  have h: "\<forall>c\<in>set (CARDS deck_store).
          slots example_deck (case code c of None \<Rightarrow> [] | Some k \<Rightarrow> k) \<noteq> None
          \<and> type_code c = Some ''skill'' \<longrightarrow> permanent c = Some True"
    by (simp add: deck_store_def example_deck_def CARDS_refresh_name_index mk_deck_card_def)
  have t: "map title (build_deck_embeds deck_store example_deck)
     = [''Roland Banks: Test 1.0'', ''Assets'', ''Permanents'', ''Events'']"
    by (simp add: deck_store_def example_deck_def deck_eval string_eval)
  have c: "map type_code (CARDS deck_store)
     = [Some ''asset'', Some ''asset'', Some ''asset'', Some ''event'', Some ''asset'',
        Some ''investigator'', Some ''skill'']"
    by (simp add: deck_store_def CARDS_refresh_name_index mk_deck_card_def)
  have k: "map title (build_deck_embeds deck_store skill_deck)
     = [''Roland Banks: Test 1.0'', ''Assets'', ''Permanents'', ''Events'', ''Skills'']"
    by (simp add: deck_store_def skill_deck_def example_deck_def deck_eval string_eval)
  have "\<forall>e\<in>set (tl (build_deck_embeds deck_store example_deck)).
         \<not> starts_with ''Skills'' (title e)"
    using category_placement [of "[]" Map.empty deck_store example_deck] h by blast
  then have "filter (\<lambda>e. starts_with ''Skills'' (title e))
         (tl (build_deck_embeds deck_store example_deck)) = []"
    by (simp add: filter_empty_conv)
  then show ?thesis using t c k by simp
qed

section \<open>C8: order and sub-headings of the assets\<close>

text \<open>
  Claim C8, for every list of deck cards. The assets are sorted by their slot, a card
  without a slot counting as \<open>zzzzzz\<close>, and the sort is stable: the sorted assets are
  ascending in their slot key, they are the assets of the deck, and cards of equal key
  keep their catalog order. A card that follows a card without a slot has no slot itself
  or a slot name that is not below the sentinel; so when the sentinel follows the slot
  names of the assets (it follows the empty name and every name whose first character is
  below \<open>z\<close>, as the capitalised slot names are), no card with a slot comes after a card
  without one. The lines of the category are those of the loop over the sorted assets.
  The sorted assets can be cut into consecutive non-empty groups of one slot label each
  (\<open>Other\<close> for a card without a slot), neighbouring groups having different labels; for
  every such cut the lines are, group by group, one sub-heading, which is a newline, two
  asterisks, the label, a colon and two asterisks, followed by one line per card, a
  hyphen, a space and the card's text. Every other category lists one such line per card
  and no sub-heading, in the order of the deck cards, which are the catalog records with
  their code among the slots, in catalog order.
\<close>

theorem asset_order_and_grouping:
  "parts_of sl ''Asset'' (cat_cards dcards ''Asset'') = asset_parts sl None (sorted_assets dcards)
   \<and> sorted (map slot_key (sorted_assets dcards))
   \<and> (\<forall>c. slot_key c = (case slot c of None \<Rightarrow> ''zzzzzz'' | Some s \<Rightarrow> s))
   \<and> (\<forall>c. slot_label c = (case slot c of None \<Rightarrow> ''Other'' | Some s \<Rightarrow> s))
   \<and> set (sorted_assets dcards) = set (cat_cards dcards ''Asset'')
   \<and> length (sorted_assets dcards) = length (cat_cards dcards ''Asset'')
   \<and> (\<forall>k. filter (\<lambda>c. slot_key c = k) (sorted_assets dcards)
           = filter (\<lambda>c. slot_key c = k) (cat_cards dcards ''Asset''))
   \<and> (\<forall>i j. i < j \<and> j < length (sorted_assets dcards) \<and> slot (sorted_assets dcards ! i) = None
           \<longrightarrow> slot (sorted_assets dcards ! j) = None
               \<or> (\<exists>s. slot (sorted_assets dcards ! j) = Some s \<and> ''zzzzzz'' \<le> s))
   \<and> ((\<forall>c\<in>set (cat_cards dcards ''Asset''). \<forall>s. slot c = Some s \<longrightarrow> s < ''zzzzzz'')
        \<longrightarrow> (\<forall>i j. i < j \<and> j < length (sorted_assets dcards)
                   \<and> slot (sorted_assets dcards ! i) = None
               \<longrightarrow> slot (sorted_assets dcards ! j) = None))
   \<and> (\<exists>groups. concat groups = sorted_assets dcards
          \<and> (\<forall>g\<in>set groups. g \<noteq> [] \<and> (\<forall>c\<in>set g. slot_label c = slot_label (hd g)))
          \<and> distinct_adj (map (\<lambda>g. slot_label (hd g)) groups))
   \<and> (\<forall>groups. concat groups = sorted_assets dcards
          \<and> (\<forall>g\<in>set groups. g \<noteq> [] \<and> (\<forall>c\<in>set g. slot_label c = slot_label (hd g)))
          \<and> distinct_adj (map (\<lambda>g. slot_label (hd g)) groups)
         \<longrightarrow> asset_parts sl None (sorted_assets dcards)
             = concat (map (\<lambda>g. (CHR 0x0A # ''**'' @ slot_label (hd g) @ '':**'')
                                # map (\<lambda>c. ''- '' @ card_line sl c) g) groups))
   \<and> (\<forall>category. category \<noteq> ''Asset''
         \<longrightarrow> parts_of sl category (cat_cards dcards category)
             = map (\<lambda>c. ''- '' @ card_line sl c) (cat_cards dcards category))
   \<and> (\<forall>category. \<exists>P. cat_cards dcards category = filter P dcards)
   \<and> (\<forall>cards. deck_cards cards sl
         = filter (\<lambda>c. sl (case code c of None \<Rightarrow> [] | Some k \<Rightarrow> k) \<noteq> None) cards)
   \<and> (\<forall>s. s = [] \<or> hd s < CHR ''z'' \<longrightarrow> s < ''zzzzzz'')"
proof -
  let ?a = "sorted_assets dcards"
  let ?c = "cat_cards dcards ''Asset''"
  have 1: "parts_of sl ''Asset'' ?c = asset_parts sl None ?a"
    by (simp add: parts_of_def sorted_assets_def)
  have 2: "sorted (map slot_key ?a)" by (simp add: sorted_assets_def)
  have k1: "\<forall>c. slot_key c = (case slot c of None \<Rightarrow> ''zzzzzz'' | Some s \<Rightarrow> s)"
    by (simp add: slot_key_def)
  have k2: "\<forall>c. slot_label c = (case slot c of None \<Rightarrow> ''Other'' | Some s \<Rightarrow> s)"
    by (simp add: slot_label_def)
  have 3: "set ?a = set ?c" by (simp add: sorted_assets_def)
  have 4: "length ?a = length ?c" by (simp add: sorted_assets_def)
  have 5: "\<forall>k. filter (\<lambda>c. slot_key c = k) ?a = filter (\<lambda>c. slot_key c = k) ?c"
    by (simp add: sorted_assets_def sort_key_stable)
  have 6: "\<forall>i j. i < j \<and> j < length ?a \<and> slot (?a ! i) = None
           \<longrightarrow> slot (?a ! j) = None \<or> (\<exists>s. slot (?a ! j) = Some s \<and> ''zzzzzz'' \<le> s)"
  proof (intro allI impI)
    fix i j
    assume h: "i < j \<and> j < length ?a \<and> slot (?a ! i) = None"
    then have "map slot_key ?a ! i \<le> map slot_key ?a ! j"
      using 2 by (intro sorted_nth_mono) auto
    then have le: "slot_key (?a ! i) \<le> slot_key (?a ! j)" using h by simp
    have ki: "slot_key (?a ! i) = ''zzzzzz''" using h by (simp add: slot_key_def)
    show "slot (?a ! j) = None \<or> (\<exists>s. slot (?a ! j) = Some s \<and> ''zzzzzz'' \<le> s)"
    proof (cases "slot (?a ! j)")
      case None
      then show ?thesis by simp
    next
      case (Some s)
      then have "slot_key (?a ! j) = s" by (simp add: slot_key_def)
      then have "''zzzzzz'' \<le> s" using le ki by simp
      then show ?thesis using Some by simp
    qed
  qed
  have 7: "(\<forall>c\<in>set ?c. \<forall>s. slot c = Some s \<longrightarrow> s < ''zzzzzz'')
        \<longrightarrow> (\<forall>i j. i < j \<and> j < length ?a \<and> slot (?a ! i) = None \<longrightarrow> slot (?a ! j) = None)"
  proof (intro allI impI)
    fix i j
    assume b: "\<forall>c\<in>set ?c. \<forall>s. slot c = Some s \<longrightarrow> s < ''zzzzzz''"
      and h: "i < j \<and> j < length ?a \<and> slot (?a ! i) = None"
    from 6 h have o: "slot (?a ! j) = None \<or> (\<exists>s. slot (?a ! j) = Some s \<and> ''zzzzzz'' \<le> s)"
      by blast
    show "slot (?a ! j) = None"
    proof (cases "slot (?a ! j)")
      case None
      then show ?thesis .
    next
      case (Some s)
      have "?a ! j \<in> set ?a" using h by simp
      then have "?a ! j \<in> set ?c" using 3 by simp
      then have "s < ''zzzzzz''" using b Some by blast
      moreover have "''zzzzzz'' \<le> s" using o Some by simp
      ultimately have False by simp
      then show ?thesis ..
    qed
  qed
  have 8: "\<exists>groups. concat groups = ?a
          \<and> (\<forall>g\<in>set groups. g \<noteq> [] \<and> (\<forall>c\<in>set g. slot_label c = slot_label (hd g)))
          \<and> distinct_adj (map (\<lambda>g. slot_label (hd g)) groups)"
    by (rule runs_exist)
  have 9: "\<forall>groups. concat groups = ?a
          \<and> (\<forall>g\<in>set groups. g \<noteq> [] \<and> (\<forall>c\<in>set g. slot_label c = slot_label (hd g)))
          \<and> distinct_adj (map (\<lambda>g. slot_label (hd g)) groups)
         \<longrightarrow> asset_parts sl None ?a
             = concat (map (\<lambda>g. (CHR 0x0A # ''**'' @ slot_label (hd g) @ '':**'')
                                # map (\<lambda>c. ''- '' @ card_line sl c) g) groups)"
  proof (intro allI impI)
    fix groups
    assume h: "concat groups = ?a
              \<and> (\<forall>g\<in>set groups. g \<noteq> [] \<and> (\<forall>c\<in>set g. slot_label c = slot_label (hd g)))
              \<and> distinct_adj (map (\<lambda>g. slot_label (hd g)) groups)"
    have a: "\<forall>g\<in>set groups. g \<noteq> [] \<and> (\<forall>c\<in>set g. slot_label c = slot_label (hd g))"
      using h by blast
    have b: "distinct_adj (map (\<lambda>g. slot_label (hd g)) groups)" using h by blast
    have c: "groups = [] \<or> None \<noteq> Some (slot_label (hd (hd groups)))" by simp
    have "asset_parts sl None (concat groups)
        = concat (map (\<lambda>g. heading (slot_label (hd g)) # map (item sl) g) groups)"
      using a b c by (rule asset_parts_groups)
    moreover have "concat groups = ?a" using h by blast
    moreover have "(\<lambda>g. heading (slot_label (hd g)) # map (item sl) g)
        = (\<lambda>g. (CHR 0x0A # ''**'' @ slot_label (hd g) @ '':**'')
                 # map (\<lambda>c. ''- '' @ card_line sl c) g)"
      by (simp add: heading_def item_def [abs_def] newline_def)
    ultimately show "asset_parts sl None ?a
        = concat (map (\<lambda>g. (CHR 0x0A # ''**'' @ slot_label (hd g) @ '':**'')
                           # map (\<lambda>c. ''- '' @ card_line sl c) g) groups)"
      by (simp only:)
  qed
  have 10: "\<forall>category. category \<noteq> ''Asset''
             \<longrightarrow> parts_of sl category (cat_cards dcards category)
                 = map (\<lambda>c. ''- '' @ card_line sl c) (cat_cards dcards category)"
    by (simp add: parts_of_def item_def [abs_def])
  have 11: "\<forall>category. \<exists>P. cat_cards dcards category = filter P dcards"
    using cat_cards_filter by blast
  have 12: "\<forall>cards. deck_cards cards sl
         = filter (\<lambda>c. sl (case code c of None \<Rightarrow> [] | Some k \<Rightarrow> k) \<noteq> None) cards"
    by (simp add: deck_cards_def)
  have 13: "\<forall>s. s = [] \<or> hd s < CHR ''z'' \<longrightarrow> s < ''zzzzzz''"
    using sentinel_follows by blast
  show ?thesis
    apply (intro conjI)
                apply (rule 1)
               apply (rule 2)
              apply (rule k1)
             apply (rule k2)
            apply (rule 3)
           apply (rule 4)
          apply (rule 5)
         apply (rule 6)
        apply (rule 7)
       apply (rule 8)
      apply (rule 9)
     apply (rule 10)
    apply (rule 11)
   apply (rule 12)
  apply (rule 13)
    done
qed

text \<open>
  The deck of the earlier example: Forbidden Knowledge has no slot and comes first in the
  catalog; it is listed last, under the sub-heading Other, after Body and Hand.
\<close>

theorem asset_order_and_grouping_witness:
  "sorted_assets (deck_cards (CARDS deck_store) (slots example_deck))
     = [mk_deck_card ''01072'' ''Leather Coat'' ''asset'' None (Some ''Body''),
        mk_deck_card ''01020'' ''Machete'' ''asset'' None (Some ''Hand''),
        mk_deck_card ''01058'' ''Forbidden Knowledge'' ''asset'' None None]
   \<and> parts_of (slots example_deck) ''Asset''
         (cat_cards (deck_cards (CARDS deck_store) (slots example_deck)) ''Asset'')
     = [CHR 0x0A # ''**Body:**'',
        ''- 1 '' @ [CHR 0xD7] @ '' [Leather Coat] ()'',
        CHR 0x0A # ''**Hand:**'',
        ''- 2 '' @ [CHR 0xD7] @ '' [Machete] ()'',
        CHR 0x0A # ''**Other:**'',
        ''- 1 '' @ [CHR 0xD7] @ '' [Forbidden Knowledge] ()'']
   \<and> description (build_deck_embeds deck_store example_deck ! 1)
     = CHR 0x0A # ''**Body:**'' @ CHR 0x0A # ''- 1 '' @ [CHR 0xD7] @ '' [Leather Coat] ()''
       @ CHR 0x0A # CHR 0x0A # ''**Hand:**'' @ CHR 0x0A # ''- 2 '' @ [CHR 0xD7] @ '' [Machete] ()''
       @ CHR 0x0A # CHR 0x0A # ''**Other:**'' @ CHR 0x0A
       # ''- 1 '' @ [CHR 0xD7] @ '' [Forbidden Knowledge] ()''"
proof -
  let ?dc = "deck_cards (CARDS deck_store) (slots example_deck)"
  let ?lc = "mk_deck_card ''01072'' ''Leather Coat'' ''asset'' None (Some ''Body'')"
  let ?m = "mk_deck_card ''01020'' ''Machete'' ''asset'' None (Some ''Hand'')"
  let ?fk = "mk_deck_card ''01058'' ''Forbidden Knowledge'' ''asset'' None None"
  have dc: "?dc = [?fk, ?m, mk_deck_card ''02158'' ''Charisma'' ''asset'' (Some True) None,
                   mk_deck_card ''01080'' ''Lucky!'' ''event'' (Some False) None, ?lc]"
    by (simp add: deck_store_def example_deck_def deck_cards_def CARDS_refresh_name_index
        mk_deck_card_def)
  have sa: "sorted_assets ?dc = [?lc, ?m, ?fk]"
    unfolding dc by (simp add: sorted_assets_def cat_cards_def slot_key_def mk_deck_card_def string_eval)
  have g1: "concat [[?lc], [?m], [?fk]] = sorted_assets ?dc"
    unfolding sa by simp
  have g2: "\<forall>g\<in>set [[?lc], [?m], [?fk]]. g \<noteq> [] \<and> (\<forall>c\<in>set g. slot_label c = slot_label (hd g))"
    by simp
  have g3: "distinct_adj (map (\<lambda>g. slot_label (hd g)) [[?lc], [?m], [?fk]])"
    by (simp add: slot_label_def mk_deck_card_def)
  have g: "concat [[?lc], [?m], [?fk]] = sorted_assets ?dc
      \<and> (\<forall>g\<in>set [[?lc], [?m], [?fk]]. g \<noteq> [] \<and> (\<forall>c\<in>set g. slot_label c = slot_label (hd g)))
      \<and> distinct_adj (map (\<lambda>g. slot_label (hd g)) [[?lc], [?m], [?fk]])"
    using g1 g2 g3 by (intro conjI)
  note t = asset_order_and_grouping [of "slots example_deck" ?dc]
  have p1: "parts_of (slots example_deck) ''Asset'' (cat_cards ?dc ''Asset'')
      = asset_parts (slots example_deck) None (sorted_assets ?dc)"
    by (rule t [THEN conjunct1])
  note p9 = t [THEN conjunct2, THEN conjunct2, THEN conjunct2, THEN conjunct2, THEN conjunct2,
      THEN conjunct2, THEN conjunct2, THEN conjunct2, THEN conjunct2, THEN conjunct2,
      THEN conjunct1, rule_format, OF g]
  have "parts_of (slots example_deck) ''Asset'' (cat_cards ?dc ''Asset'')
      = concat (map (\<lambda>g. (CHR 0x0A # ''**'' @ slot_label (hd g) @ '':**'')
                         # map (\<lambda>c. ''- '' @ card_line (slots example_deck) c) g)
          [[?lc], [?m], [?fk]])"
    using p1 p9 by (rule trans)
  then have p: "parts_of (slots example_deck) ''Asset'' (cat_cards ?dc ''Asset'')
     = [CHR 0x0A # ''**Body:**'',
        ''- 1 '' @ [CHR 0xD7] @ '' [Leather Coat] ()'',
        CHR 0x0A # ''**Hand:**'',
        ''- 2 '' @ [CHR 0xD7] @ '' [Machete] ()'',
        CHR 0x0A # ''**Other:**'',
        ''- 1 '' @ [CHR 0xD7] @ '' [Forbidden Knowledge] ()'']"
    by (simp add: slot_label_def card_line_def mk_deck_card_def example_deck_def string_eval)
  have e: "description (build_deck_embeds deck_store example_deck ! 1)
     = CHR 0x0A # ''**Body:**'' @ CHR 0x0A # ''- 1 '' @ [CHR 0xD7] @ '' [Leather Coat] ()''
       @ CHR 0x0A # CHR 0x0A # ''**Hand:**'' @ CHR 0x0A # ''- 2 '' @ [CHR 0xD7] @ '' [Machete] ()''
       @ CHR 0x0A # CHR 0x0A # ''**Other:**'' @ CHR 0x0A
       # ''- 1 '' @ [CHR 0xD7] @ '' [Forbidden Knowledge] ()''"
    by (simp add: deck_store_def example_deck_def deck_eval string_eval)
  show ?thesis using sa p e by (simp only: simp_thms)
qed

end
